theory Spec2Isabelle
  imports Main "HOL-Library.Multiset" "HOL-Library.Sublist"
begin

section \<open>Ingestion script: shared helpers\<close>

text \<open>
  Errors of the ingestion script are values. \<open>FetchError\<close> is the \<open>Error\<close> thrown by
  \<open>fetchJson\<close> (transport failure or a response that is not ok), carrying the URL.
\<close>

datatype error = FetchError string

text \<open>
  A URL argument as JavaScript passes it: \<open>undefined\<close>, \<open>null\<close> or a string.
  \<open>falsy\<close> is JavaScript's \<open>!url\<close>.
\<close>

datatype js_url = Undefined | Null | Url string

fun falsy :: "js_url \<Rightarrow> bool" where
  "falsy Undefined = True"
| "falsy Null = True"
| "falsy (Url s) = (s = [])"

fun url_text :: "js_url \<Rightarrow> string" where
  "url_text (Url s) = s"
| "url_text Null = ''null''"
| "url_text Undefined = ''undefined''"

text \<open>
  The remote API is a function from the requested URL to the parsed body or an error.
  Every call of \<open>fetchJson\<close> is appended to the list of requests made so far.
\<close>

type_synonym 'a network = "string \<Rightarrow> error + 'a"

type_synonym requests = "string list"

definition fetchJson :: "'a network \<Rightarrow> string \<Rightarrow> requests \<Rightarrow> (error + 'a) \<times> requests" where
  "fetchJson net url reqs = (net url, reqs @ [url])"

text \<open>A named API resource \<open>{name, url}\<close>; either field may be missing.\<close>

datatype named_ref = NamedRef (ref_name: "string option") (ref_url: "string option")

text \<open>\<open>formatName\<close>: \<open>name.replace(/-/g, ' ')\<close>.\<close>

definition formatName :: "string \<Rightarrow> string" where
  "formatName name = map (\<lambda>c. if c = CHR ''-'' then CHR '' '' else c) name"

section \<open>Location extraction\<close>

record encounter =
  location_area :: "named_ref option"

text \<open>\<open>Set.prototype.add\<close> on an insertion-ordered set kept as a duplicate-free list.\<close>

definition set_add :: "'a \<Rightarrow> 'a list \<Rightarrow> 'a list" where
  "set_add x xs = (if x \<in> set xs then xs else xs @ [x])"

text \<open>
  One pass of the loop body: \<open>entry.location_area?.name\<close> is added, humanized, when it
  is a non-empty string.
\<close>

definition add_location :: "encounter \<Rightarrow> string list \<Rightarrow> string list" where
  "add_location entry locations =
     (case location_area entry of
        None \<Rightarrow> locations
      | Some area \<Rightarrow>
          (case ref_name area of
             None \<Rightarrow> locations
           | Some locationName \<Rightarrow>
               if locationName = [] then locations
               else set_add (formatName locationName) locations))"

text \<open>
  The \<open>for ... of\<close> loop of \<open>fetchLocations\<close> with its \<open>break\<close>. Besides the set it
  returns how many entries the iteration has visited, which is what an early exit is
  about.
\<close>

fun locations_loop :: "encounter list \<Rightarrow> string list \<Rightarrow> nat \<Rightarrow> string list \<times> nat" where
  "locations_loop [] locations visited = (locations, visited)"
| "locations_loop (entry # rest) locations visited =
     (let locations' = add_location entry locations in
      if length locations' \<ge> 12 then (locations', Suc visited)
      else locations_loop rest locations' (Suc visited))"

definition fetchLocations ::
  "encounter list network \<Rightarrow> js_url \<Rightarrow> requests \<Rightarrow> (error + string list) \<times> requests" where
  "fetchLocations net url reqs =
     (if falsy url then (Inr [], reqs)
      else case fetchJson net (url_text url) reqs of
             (Inl e, reqs') \<Rightarrow> (Inl e, reqs')
           | (Inr data, reqs') \<Rightarrow> (Inr (fst (locations_loop data [] 0)), reqs'))"

text \<open>The humanized area names of a list of entries, in order, with repetitions.\<close>

definition area_names :: "encounter list \<Rightarrow> string list" where
  "area_names es = concat (map (\<lambda>e. add_location e []) es)"

text \<open>A list without its repeated elements, each kept where it first occurs.\<close>

definition firsts :: "'a list \<Rightarrow> 'a list" where
  "firsts xs = rev (remdups (rev xs))"

text \<open>Fixture: sixteen encounters, one without area and some repeated.\<close>

definition area :: "string \<Rightarrow> encounter" where
  "area n = \<lparr> location_area = Some (NamedRef (Some n) None) \<rparr>"

definition sample_encounters :: "encounter list" where
  "sample_encounters =
     [area ''route-1'', area ''route-2'', \<lparr> location_area = None \<rparr>, area ''route 1'',
      area ''route-3'', area ''route-4'', area ''route-5'', area ''route-6'', area ''route-7'',
      area ''route-8'', area ''route-9'', area ''viridian-forest'', area ''mt-moon-1f'',
      area ''mt-moon-b1f'', area ''cerulean-cave-1f'', area ''route-1'']"

section \<open>Evolution-chain extraction\<close>

text \<open>
  A node of the evolution tree as the API returns it: an optional species reference and
  an optional list of further evolutions, whose elements may themselves be \<open>null\<close>.
\<close>

datatype evo_node =
  EvoNode (species: "named_ref option") (evolves_to: "evo_node option list option")

record evolution_data =
  chain :: "evo_node option"

text \<open>\<open>PokemonEvolutionNode\<close>: \<open>{id, name, stage}\<close>.\<close>

record evolution_entry =
  evo_id :: "nat option"
  evo_name :: string
  evo_stage :: nat

definition is_digit :: "char \<Rightarrow> bool" where
  "is_digit c = (48 \<le> (of_char c :: nat) \<and> (of_char c :: nat) \<le> 57)"

definition decimal :: "string \<Rightarrow> nat" where
  "decimal ds = fold (\<lambda>c n. 10 * n + ((of_char c :: nat) - 48)) ds 0"

text \<open>
  \<open>speciesUrl.match(/\/(\d+)\/?$/)\<close> followed by \<open>Number(idMatch[1])\<close>: the URL, less
  one optional final slash, must end in a slash followed by a non-empty run of decimal
  digits. The number is exact (JavaScript rounds beyond \<open>2^53\<close>).
\<close>

definition match_id :: "string \<Rightarrow> nat option" where
  "match_id url =
     (let s = (if url \<noteq> [] \<and> last url = CHR ''/'' then butlast url else url);
          digits = rev (takeWhile is_digit (rev s));
          front = rev (dropWhile is_digit (rev s))
      in if digits \<noteq> [] \<and> front \<noteq> [] \<and> last front = CHR ''/''
         then Some (decimal digits) else None)"

text \<open>The object pushed by \<open>traverse\<close> for a node with species reference \<open>sp\<close>.\<close>

definition chain_entry :: "named_ref option \<Rightarrow> nat \<Rightarrow> evolution_entry" where
  "chain_entry sp stage =
     \<lparr> evo_id = (case sp of None \<Rightarrow> None
                 | Some r \<Rightarrow> (case ref_url r of None \<Rightarrow> None | Some u \<Rightarrow> match_id u)),
       evo_name = (case sp of None \<Rightarrow> []
                   | Some r \<Rightarrow> (case ref_name r of None \<Rightarrow> [] | Some n \<Rightarrow> n)),
       evo_stage = stage \<rparr>"

text \<open>
  \<open>traverse(node, stage)\<close> pushes onto the shared array \<open>chain\<close>, here \<open>out\<close>, which is
  passed in and returned. \<open>traverse_each\<close> is the \<open>for\<close> loop over \<open>node.evolves_to ?? []\<close>.
\<close>

fun traverse :: "evo_node option \<Rightarrow> nat \<Rightarrow> evolution_entry list \<Rightarrow> evolution_entry list"
  and traverse_each ::
    "evo_node option list \<Rightarrow> nat \<Rightarrow> evolution_entry list \<Rightarrow> evolution_entry list" where
  "traverse None stage out = out"
| "traverse (Some (EvoNode sp None)) stage out =
     traverse_each [] (stage + 1) (out @ [chain_entry sp stage])"
| "traverse (Some (EvoNode sp (Some evolutions))) stage out =
     traverse_each evolutions (stage + 1) (out @ [chain_entry sp stage])"
| "traverse_each [] stage out = out"
| "traverse_each (evolution # rest) stage out =
     traverse_each rest stage (traverse evolution stage out)"

definition fetchEvolutionChain ::
  "evolution_data network \<Rightarrow> js_url \<Rightarrow> requests \<Rightarrow> (error + evolution_entry list) \<times> requests" where
  "fetchEvolutionChain net url reqs =
     (if falsy url then (Inr [], reqs)
      else case fetchJson net (url_text url) reqs of
             (Inl e, reqs') \<Rightarrow> (Inl e, reqs')
           | (Inr data, reqs') \<Rightarrow> (Inr (traverse (chain data) 0 []), reqs'))"

text \<open>
  The tree read directly: the nodes that are present, in depth-first preorder, each with
  its depth below the root.
\<close>

fun children :: "evo_node \<Rightarrow> evo_node list" where
  "children (EvoNode sp None) = []"
| "children (EvoNode sp (Some es)) = concat (map (\<lambda>e. case e of None \<Rightarrow> [] | Some n \<Rightarrow> [n]) es)"

fun preorder :: "nat \<Rightarrow> evo_node \<Rightarrow> (evo_node \<times> nat) list"
  and preorder_each :: "nat \<Rightarrow> evo_node option list \<Rightarrow> (evo_node \<times> nat) list" where
  "preorder d (EvoNode sp None) = [(EvoNode sp None, d)]"
| "preorder d (EvoNode sp (Some es)) = (EvoNode sp (Some es), d) # preorder_each (Suc d) es"
| "preorder_each d [] = []"
| "preorder_each d (None # es) = preorder_each d es"
| "preorder_each d (Some n # es) = preorder d n @ preorder_each d es"

text \<open>The entry that \<open>traverse\<close> pushes for a node at a depth.\<close>

definition entry_of :: "evo_node \<times> nat \<Rightarrow> evolution_entry" where
  "entry_of p = chain_entry (species (fst p)) (snd p)"

text \<open>Fixture: a root with two childless branches, one without species.\<close>

definition species_ref :: "string \<Rightarrow> string \<Rightarrow> named_ref option" where
  "species_ref n u = Some (NamedRef (Some n) (Some u))"

definition sample_tree :: evo_node where
  "sample_tree =
     EvoNode (species_ref ''wurmple'' ''https://pokeapi.co/api/v2/pokemon-species/265/'')
       (Some [Some (EvoNode (species_ref ''silcoon'' ''https://pokeapi.co/api/v2/pokemon-species/266/'') None),
              Some (EvoNode None (Some []))])"

section \<open>Sorting as the script does it\<close>

text \<open>
  \<open>Array.prototype.sort(compare)\<close>: a stable sort that places \<open>a\<close> before \<open>b\<close> when
  \<open>compare(a, b)\<close> is not positive. It is modelled by stable insertion.
\<close>

fun insert_by :: "('a \<Rightarrow> 'a \<Rightarrow> int) \<Rightarrow> 'a \<Rightarrow> 'a list \<Rightarrow> 'a list" where
  "insert_by compare x [] = [x]"
| "insert_by compare x (y # ys) =
     (if compare x y \<le> 0 then x # y # ys else y # insert_by compare x ys)"

definition js_sort :: "('a \<Rightarrow> 'a \<Rightarrow> int) \<Rightarrow> 'a list \<Rightarrow> 'a list" where
  "js_sort compare xs = foldr (insert_by compare) xs []"

section \<open>Move extraction\<close>

text \<open>An element of \<open>version_group_details\<close> and a raw move of the API.\<close>

record version_group_detail =
  move_learn_method :: "named_ref option"
  level_learned_at :: "int option"

record raw_move =
  move :: "named_ref option"
  version_group_details :: "version_group_detail list option"

text \<open>\<open>PokemonMove\<close>: \<open>{name, method, levelLearnedAt}\<close>.\<close>

record pokemon_move =
  move_name :: string
  move_method :: string
  levelLearnedAt :: "int option"

text \<open>\<open>detail?.move_learn_method?.name\<close>.\<close>

definition method_name :: "version_group_detail option \<Rightarrow> string option" where
  "method_name detail =
     (case detail of None \<Rightarrow> None
      | Some d \<Rightarrow> (case move_learn_method d of None \<Rightarrow> None | Some m \<Rightarrow> ref_name m))"

definition is_level_up :: "version_group_detail \<Rightarrow> bool" where
  "is_level_up detail = (method_name (Some detail) = Some ''level-up'')"

text \<open>The callback of \<open>moves.map\<close> in \<open>extractMoves\<close>.\<close>

definition to_move :: "raw_move \<Rightarrow> pokemon_move" where
  "to_move mv =
     (let details = (case version_group_details mv of None \<Rightarrow> None
                     | Some ds \<Rightarrow> find is_level_up ds);
          first_detail = (case version_group_details mv of None \<Rightarrow> None
                          | Some [] \<Rightarrow> None | Some (d # ds) \<Rightarrow> Some d)
      in \<lparr> move_name = (case move mv of None \<Rightarrow> []
                        | Some r \<Rightarrow> (case ref_name r of None \<Rightarrow> [] | Some n \<Rightarrow> n)),
           move_method = (case method_name details of Some n \<Rightarrow> n
                          | None \<Rightarrow> (case method_name first_detail of Some n \<Rightarrow> n
                                     | None \<Rightarrow> ''unknown'')),
           levelLearnedAt = (case details of None \<Rightarrow> None | Some d \<Rightarrow> level_learned_at d) \<rparr>)"

text \<open>The comparator \<open>(a, b) => (a.levelLearnedAt ?? 0) - (b.levelLearnedAt ?? 0)\<close>.\<close>

definition level_or_zero :: "pokemon_move \<Rightarrow> int" where
  "level_or_zero m = (case levelLearnedAt m of None \<Rightarrow> 0 | Some l \<Rightarrow> l)"

definition by_level :: "pokemon_move \<Rightarrow> pokemon_move \<Rightarrow> int" where
  "by_level a b = level_or_zero a - level_or_zero b"

text \<open>\<open>move.levelLearnedAt !== null\<close>.\<close>

definition has_level :: "pokemon_move \<Rightarrow> bool" where
  "has_level m = (levelLearnedAt m \<noteq> None)"

text \<open>\<open>extractMoves\<close>; the argument is \<open>None\<close> when it is not an array.\<close>

definition extractMoves :: "raw_move list option \<Rightarrow> pokemon_move list" where
  "extractMoves moves =
     (case moves of
        None \<Rightarrow> []
      | Some ms \<Rightarrow>
          (let levelUpMoves = filter (\<lambda>m. move_name m \<noteq> []) (map to_move ms);
               sortedLevelUp = js_sort by_level (filter has_level levelUpMoves);
               otherMoves = take 20 (filter (\<lambda>m. \<not> has_level m) levelUpMoves)
           in take 30 sortedLevelUp @ otherMoves))"

text \<open>
  Move extraction as the specification words it: every move of the input is converted,
  those with a level are sorted by level and capped at 30, those without keep their
  order and are capped at 20.
\<close>

definition spec_extractMoves :: "raw_move list \<Rightarrow> pokemon_move list" where
  "spec_extractMoves ms =
     take 30 (sort_key level_or_zero (filter has_level (map to_move ms)))
     @ take 20 (filter (\<lambda>m. \<not> has_level m) (map to_move ms))"

text \<open>Fixtures: raw moves with and without a name and a level.\<close>

definition learnt :: "string \<Rightarrow> int option \<Rightarrow> version_group_detail" where
  "learnt m l = \<lparr> move_learn_method = Some (NamedRef (Some m) None), level_learned_at = l \<rparr>"

definition raw :: "string option \<Rightarrow> version_group_detail list \<Rightarrow> raw_move" where
  "raw n ds = \<lparr> move = Some (NamedRef n None), version_group_details = Some ds \<rparr>"

definition named_moves :: "raw_move list \<Rightarrow> pokemon_move list" where
  "named_moves ms = filter (\<lambda>m. move_name m \<noteq> []) (map to_move ms)"

definition unnamed_move :: raw_move where
  "unnamed_move = raw None [learnt ''level-up'' (Some 5)]"

definition sample_moves :: "raw_move list" where
  "sample_moves =
     [raw (Some ''tackle'') [learnt ''machine'' None, learnt ''level-up'' (Some 7)],
      raw (Some ''zap-cannon'') [learnt ''machine'' (Some 0)],
      raw (Some ''growl'') [learnt ''level-up'' (Some 1)],
      raw (Some ''absorb'') [],
      raw (Some ''pound'') [learnt ''level-up'' None]]"

definition many_moves :: "raw_move list" where
  "many_moves =
     raw (Some ''absorb'') []
     # map (\<lambda>l. raw (Some ''tackle'') [learnt ''level-up'' (Some (int l))]) (rev [0..<17])"

section \<open>Detail page: the displayed move list\<close>

definition MOVES_DISPLAY_LIMIT :: nat where
  "MOVES_DISPLAY_LIMIT = 16"

text \<open>
  The comparator \<open>(a, b) => a.name.localeCompare(b.name)\<close>. \<open>localeCompare\<close> is a
  built-in of the platform and is a parameter here.
\<close>

definition by_name :: "(string \<Rightarrow> string \<Rightarrow> int) \<Rightarrow> pokemon_move \<Rightarrow> pokemon_move \<Rightarrow> int" where
  "by_name localeCompare a b = localeCompare (move_name a) (move_name b)"

text \<open>\<open>combinedMoves\<close> of \<open>PokemonDetailPage\<close>, computed from \<open>pokemon.moves\<close>.\<close>

definition combinedMoves ::
  "(string \<Rightarrow> string \<Rightarrow> int) \<Rightarrow> pokemon_move list \<Rightarrow> pokemon_move list" where
  "combinedMoves localeCompare moves =
     (let levelUpMoves = js_sort by_level (filter has_level moves);
          additionalMoves = js_sort (by_name localeCompare) (filter (\<lambda>m. \<not> has_level m) moves)
      in take MOVES_DISPLAY_LIMIT (levelUpMoves @ additionalMoves))"

text \<open>
  A comparison of strings by character code, used for \<open>localeCompare\<close> in examples;
  the two agree on names that begin with distinct lowercase ASCII letters.
\<close>

fun codepoint_compare :: "string \<Rightarrow> string \<Rightarrow> int" where
  "codepoint_compare [] [] = 0"
| "codepoint_compare [] (y # ys) = - 1"
| "codepoint_compare (x # xs) [] = 1"
| "codepoint_compare (x # xs) (y # ys) =
     (if (of_char x :: nat) < of_char y then - 1
      else if (of_char y :: nat) < of_char x then 1
      else codepoint_compare xs ys)"

section \<open>Records of the dataset and the filter state\<close>

text \<open>
  The interfaces of the front end. \<open>PokemonEntry.id\<close>, \<open>name\<close> and \<open>image\<close> are the
  fields \<open>entry_id\<close>, \<open>entry_name\<close> and \<open>entry_image\<close>; \<open>FilterState.generation\<close> is
  \<open>generation_selector\<close>.
\<close>

record pokemon_ability =
  ability_name :: string
  hidden :: bool

record pokemon_stat =
  stat_name :: string
  stat_value :: int

record pokemon_sprite_variants =
  sprite_default :: "string option"
  sprite_shiny :: "string option"

record pokemon_entry =
  entry_id :: int
  entry_name :: string
  height :: int
  weight :: int
  baseExperience :: int
  types :: "string list"
  abilities :: "pokemon_ability list"
  stats :: "pokemon_stat list"
  moves :: "pokemon_move list"
  entry_image :: "string option"
  spriteVariants :: pokemon_sprite_variants
  generation :: "string option"
  habitat :: "string option"
  isLegendary :: bool
  isMythical :: bool
  flavorText :: string
  evolutionChain :: "evolution_entry list"
  locations :: "string list"

datatype legendary_filter = All | Legendary | Mythical | NonLegendary

datatype sort_option = NameAsc | IdAsc | IdDesc | StatTotalDesc

record filter_state =
  searchTerm :: string
  selectedTypes :: "string list"
  generation_selector :: string
  legendary :: legendary_filter
  sortBy :: sort_option

section \<open>Query engine\<close>

text \<open>
  The module \<open>@/lib/filtering\<close> and \<open>getBaseStatTotal\<close> of \<open>@/lib/pokemonData\<close> are
  imported by the explorer component but their code is not among the sources. The
  definitions of this section are written from the specification.
\<close>

text \<open>Strings: ASCII lower case, trimming of white space, substring test.\<close>

definition to_lower :: "string \<Rightarrow> string" where
  "to_lower s =
     map (\<lambda>c. if 65 \<le> (of_char c :: nat) \<and> (of_char c :: nat) \<le> 90
               then char_of ((of_char c :: nat) + 32) else c) s"

definition is_space :: "char \<Rightarrow> bool" where
  "is_space c = ((of_char c :: nat) = 32 \<or> (9 \<le> (of_char c :: nat) \<and> (of_char c :: nat) \<le> 13))"

definition trim :: "string \<Rightarrow> string" where
  "trim s = rev (dropWhile is_space (rev (dropWhile is_space s)))"

fun js_includes :: "string \<Rightarrow> string \<Rightarrow> bool" where
  "js_includes [] needle = (needle = [])"
| "js_includes (c # cs) needle = (prefix needle (c # cs) \<or> js_includes cs needle)"

text \<open>
  Modelled from the spec: the total-stat computation of \<open>getBaseStatTotal\<close>, the sum of
  every entry in the record's stat list.
\<close>

definition getBaseStatTotal :: "pokemon_stat list \<Rightarrow> int" where
  "getBaseStatTotal sts = sum_list (map stat_value sts)"

text \<open>
  Modelled from the spec: the search clause of \<open>filterAndSortPokemon\<close>. The trimmed,
  lower-cased term is a substring of the name, of a type name or of an ability name;
  the empty term matches everything.
\<close>

definition matches_search :: "string \<Rightarrow> pokemon_entry \<Rightarrow> bool" where
  "matches_search term p =
     (let q = to_lower (trim term) in
      q = [] \<or> js_includes (to_lower (entry_name p)) q
      \<or> list_ex (\<lambda>t. js_includes (to_lower t) q) (types p)
      \<or> list_ex (\<lambda>a. js_includes (to_lower (ability_name a)) q) (abilities p))"

text \<open>
  Modelled from the spec: the type clause of \<open>filterAndSortPokemon\<close>. The record must
  contain all selected types; an empty selection is no filter.
\<close>

definition matches_types :: "string list \<Rightarrow> pokemon_entry \<Rightarrow> bool" where
  "matches_types selected p = list_all (\<lambda>t. t \<in> set (types p)) selected"

text \<open>
  Modelled from the spec: the generation clause of \<open>filterAndSortPokemon\<close>, an exact tag
  match unless the selector is \<open>all\<close>.
\<close>

definition matches_generation :: "string \<Rightarrow> pokemon_entry \<Rightarrow> bool" where
  "matches_generation g p = (g = ''all'' \<or> generation p = Some g)"

text \<open>Modelled from the spec: the legendary-status clause of \<open>filterAndSortPokemon\<close>.\<close>

fun matches_legendary :: "legendary_filter \<Rightarrow> pokemon_entry \<Rightarrow> bool" where
  "matches_legendary All p = True"
| "matches_legendary Legendary p = isLegendary p"
| "matches_legendary Mythical p = isMythical p"
| "matches_legendary NonLegendary p = (\<not> isLegendary p \<and> \<not> isMythical p)"

text \<open>
  Modelled from the spec: the sort orderings of \<open>filterAndSortPokemon\<close> as comparators,
  ties broken by ascending identifier. The locale-aware comparison of names is the
  parameter \<open>localeCompare\<close>.
\<close>

fun sort_compare ::
  "(string \<Rightarrow> string \<Rightarrow> int) \<Rightarrow> sort_option \<Rightarrow> pokemon_entry \<Rightarrow> pokemon_entry \<Rightarrow> int" where
  "sort_compare localeCompare IdAsc a b = entry_id a - entry_id b"
| "sort_compare localeCompare IdDesc a b = entry_id b - entry_id a"
| "sort_compare localeCompare NameAsc a b =
     (let c = localeCompare (to_lower (entry_name a)) (to_lower (entry_name b))
      in if c \<noteq> 0 then c else entry_id a - entry_id b)"
| "sort_compare localeCompare StatTotalDesc a b =
     (let d = getBaseStatTotal (stats b) - getBaseStatTotal (stats a)
      in if d \<noteq> 0 then d else entry_id a - entry_id b)"

text \<open>
  Modelled from the spec: \<open>filterAndSortPokemon\<close>, missing from the sources. The four
  clauses are combined by conjunction and the matching records are sorted into a new
  sequence.
\<close>

definition filterAndSortPokemon ::
  "(string \<Rightarrow> string \<Rightarrow> int) \<Rightarrow> pokemon_entry list \<Rightarrow> filter_state \<Rightarrow> pokemon_entry list" where
  "filterAndSortPokemon localeCompare collection f =
     js_sort (sort_compare localeCompare (sortBy f))
       (filter (\<lambda>p. matches_search (searchTerm f) p \<and> matches_types (selectedTypes f) p
                    \<and> matches_generation (generation_selector f) p
                    \<and> matches_legendary (legendary f) p) collection)"

text \<open>
  Modelled from the spec: \<open>getAutocompleteSuggestions\<close>, missing from the sources. The
  query is trimmed and lower-cased; an empty query gives no suggestion; otherwise the
  first \<open>n\<close> records, in collection order, whose name contains the query.
\<close>

definition getAutocompleteSuggestions ::
  "pokemon_entry list \<Rightarrow> string \<Rightarrow> nat \<Rightarrow> pokemon_entry list" where
  "getAutocompleteSuggestions collection query n =
     (let q = to_lower (trim query) in
      if q = [] then []
      else take n (filter (\<lambda>p. js_includes (to_lower (entry_name p)) q) collection))"

text \<open>Fixtures: a small collection.\<close>

definition sample_entry :: "int \<Rightarrow> string \<Rightarrow> string list \<Rightarrow> pokemon_entry" where
  "sample_entry i n ts =
     \<lparr> entry_id = i, entry_name = n, height = 7, weight = 69, baseExperience = 64,
       types = ts, abilities = [\<lparr> ability_name = ''overgrow'', hidden = False \<rparr>],
       stats = [\<lparr> stat_name = ''hp'', stat_value = 45 \<rparr>], moves = [], entry_image = None,
       spriteVariants = \<lparr> sprite_default = None, sprite_shiny = None \<rparr>,
       generation = Some ''generation-i'', habitat = None, isLegendary = False,
       isMythical = False, flavorText = [], evolutionChain = [], locations = [] \<rparr>"

definition sample_collection :: "pokemon_entry list" where
  "sample_collection =
     [sample_entry 1 ''bulbasaur'' [''grass'', ''poison''], sample_entry 4 ''charmander'' [''fire''],
      sample_entry 16 ''pidgey'' [''normal'', ''flying''], sample_entry 17 ''pidgeotto'' [''normal'', ''flying''],
      sample_entry 18 ''pidgeot'' [''normal'', ''flying''], sample_entry 25 ''pikachu'' [''electric''],
      sample_entry 43 ''oddish'' [''grass'', ''poison''], sample_entry 127 ''pinsir'' [''bug'']]"

definition sample_filter :: "string list \<Rightarrow> filter_state" where
  "sample_filter ts =
     \<lparr> searchTerm = [], selectedTypes = ts, generation_selector = ''all'', legendary = All,
       sortBy = IdDesc \<rparr>"

section \<open>Ingestion: the worker pool and \<open>main\<close>\<close>

text \<open>
  The object built by \<open>fetchPokemonDetail\<close>. Its first five fields are copied from the
  response as they are and may be missing.
\<close>

record pokemon_payload =
  payload_id :: "int option"
  payload_name :: "string option"
  payload_height :: "int option"
  payload_weight :: "int option"
  payload_baseExperience :: "int option"
  payload_types :: "string list"
  payload_abilities :: "pokemon_ability list"
  payload_stats :: "pokemon_stat list"
  payload_moves :: "pokemon_move list"
  payload_image :: "string option"
  payload_spriteVariants :: pokemon_sprite_variants
  payload_generation :: "string option"
  payload_habitat :: "string option"
  payload_isLegendary :: bool
  payload_isMythical :: bool
  payload_flavorText :: string
  payload_evolutionChain :: "evolution_entry list"
  payload_locations :: "string list"

text \<open>An element of the index list and the index response; \<open>results\<close> may be missing.\<close>

record index_entry =
  index_name :: string
  index_url :: string

record index_response =
  index_results :: "index_entry list option"

text \<open>
  \<open>fetchPokemonDetail(entry, index, total)\<close> resolves with a payload or rejects with
  the error of one of its fetches. What it does on a given call depends on the remote
  API at that moment, so its outcome is a parameter: \<open>detail entry index attempt\<close>, with
  attempt 0 for the first call of the worker and 1 for its retry.
\<close>

type_synonym detail_fetch = "index_entry \<Rightarrow> nat \<Rightarrow> nat \<Rightarrow> error + pokemon_payload"

text \<open>A cell of \<open>results\<close>: never assigned, \<open>null\<close>, or a payload.\<close>

datatype slot = Unassigned | NullSlot | Filled pokemon_payload

text \<open>
  What the script does that can be observed: calls of \<open>fetchPokemonDetail\<close>, the two
  \<open>console.error\<close> lines, the pauses with their length in milliseconds and the progress
  line. All but the last carry the index of the item being processed.
\<close>

datatype event =
    Fetch nat
  | LogFailed nat
  | LogRetryFailed nat
  | Sleep nat nat
  | Progress nat

fun event_index :: "event \<Rightarrow> nat option" where
  "event_index (Fetch i) = Some i"
| "event_index (LogFailed i) = Some i"
| "event_index (LogRetryFailed i) = Some i"
| "event_index (Sleep i ms) = Some i"
| "event_index (Progress c) = None"

definition events_of :: "nat \<Rightarrow> event list \<Rightarrow> event list" where
  "events_of i evs = filter (\<lambda>e. event_index e = Some i) evs"

text \<open>
  Where a worker is suspended. \<open>Idle\<close> is a worker that has not run yet; the other
  constructors are the four \<open>await\<close>s of the loop body, with the local variables
  \<open>currentIndex\<close> and \<open>entry\<close>, and \<open>Returned\<close> is a worker that left the loop.
\<close>

datatype worker_state =
    Idle
  | AwaitDetail nat index_entry
  | AwaitBackoff nat index_entry
  | AwaitRetry nat index_entry
  | AwaitThrottle
  | Returned

text \<open>The variables shared by the workers, the workers, and the events so far.\<close>

record pool =
  pointer :: nat
  completed :: nat
  results :: "slot list"
  workers :: "worker_state list"
  events :: "event list"

text \<open>
  The head of the \<open>while\<close> loop up to the first \<open>await\<close>: claim the next index and call
  \<open>fetchPokemonDetail\<close>, or \<open>break\<close>.
\<close>

definition loop_head :: "index_entry list \<Rightarrow> nat \<Rightarrow> pool \<Rightarrow> pool" where
  "loop_head entries w st =
     (if pointer st < length entries then
        st\<lparr> pointer := pointer st + 1,
            workers := (workers st)[w := AwaitDetail (pointer st) (entries ! pointer st)],
            events := events st @ [Fetch (pointer st)] \<rparr>
      else st\<lparr> workers := (workers st)[w := Returned] \<rparr>)"

text \<open>
  The end of the loop body after \<open>results[currentIndex]\<close> was assigned: count, print
  the progress every tenth item, and pause 100 ms.
\<close>

definition finish_item :: "nat \<Rightarrow> nat \<Rightarrow> pool \<Rightarrow> pool" where
  "finish_item w i st =
     (let c = completed st + 1 in
      st\<lparr> completed := c,
          workers := (workers st)[w := AwaitThrottle],
          events := events st @ (if c mod 10 = 0 then [Progress c] else []) @ [Sleep i 100] \<rparr>)"

text \<open>
  Worker \<open>w\<close> runs from the \<open>await\<close> it is suspended at to its next \<open>await\<close>. The event
  loop runs one such piece at a time, so a piece is one step on the shared state.
\<close>

definition resume :: "detail_fetch \<Rightarrow> index_entry list \<Rightarrow> nat \<Rightarrow> pool \<Rightarrow> pool" where
  "resume detail entries w st =
     (if w < length (workers st) then
        (case workers st ! w of
           Idle \<Rightarrow> loop_head entries w st
         | AwaitThrottle \<Rightarrow> loop_head entries w st
         | AwaitDetail i entry \<Rightarrow>
             (case detail entry i 0 of
                Inr payload \<Rightarrow> finish_item w i (st\<lparr> results := (results st)[i := Filled payload] \<rparr>)
              | Inl e \<Rightarrow>
                  st\<lparr> pointer := min (pointer st) (length entries),
                      workers := (workers st)[w := AwaitBackoff i entry],
                      events := events st @ [LogFailed i, Sleep i 500] \<rparr>)
         | AwaitBackoff i entry \<Rightarrow>
             st\<lparr> workers := (workers st)[w := AwaitRetry i entry],
                 events := events st @ [Fetch i] \<rparr>
         | AwaitRetry i entry \<Rightarrow>
             (case detail entry i 1 of
                Inr payload \<Rightarrow> finish_item w i (st\<lparr> results := (results st)[i := Filled payload] \<rparr>)
              | Inl e \<Rightarrow>
                  finish_item w i
                    (st\<lparr> results := (results st)[i := NullSlot],
                        events := events st @ [LogRetryFailed i] \<rparr>))
         | Returned \<Rightarrow> st)
      else st)"

text \<open>
  The order in which suspended workers are resumed is decided by the arrival of the
  responses; a schedule lists the workers in that order.
\<close>

definition run_pool :: "detail_fetch \<Rightarrow> index_entry list \<Rightarrow> nat list \<Rightarrow> pool \<Rightarrow> pool" where
  "run_pool detail entries schedule st = fold (resume detail entries) schedule st"

text \<open>
  \<open>Array.from({ length: Math.min(CONCURRENCY, total) }, (_, index) => worker(index + 1))\<close>:
  each worker is called in turn and runs to its first \<open>await\<close>. A length below zero gives
  no worker (as does \<open>NaN\<close>, which \<open>CONCURRENCY\<close> as an integer leaves out). The
  variable \<open>total\<close> of \<open>main\<close> is \<open>n_total\<close>.
\<close>

definition worker_count :: "int \<Rightarrow> nat \<Rightarrow> nat" where
  "worker_count concurrency n_total = nat (min concurrency (int n_total))"

definition initial_pool :: "index_entry list \<Rightarrow> nat \<Rightarrow> pool" where
  "initial_pool entries n =
     \<lparr> pointer = 0, completed = 0, results = replicate (length entries) Unassigned,
       workers = replicate n Idle, events = [] \<rparr>"

definition start_pool :: "detail_fetch \<Rightarrow> index_entry list \<Rightarrow> nat \<Rightarrow> pool" where
  "start_pool detail entries n = run_pool detail entries [0..<n] (initial_pool entries n)"

text \<open>\<open>Promise.all(workers)\<close> resolves when every worker has returned.\<close>

definition all_returned :: "pool \<Rightarrow> bool" where
  "all_returned st = list_all (\<lambda>s. s = Returned) (workers st)"

text \<open>\<open>results.filter(Boolean)\<close> and the comparator \<open>(a, b) => (a?.id ?? 0) - (b?.id ?? 0)\<close>.\<close>

fun payloads :: "slot list \<Rightarrow> pokemon_payload list" where
  "payloads [] = []"
| "payloads (Filled p # rest) = p # payloads rest"
| "payloads (s # rest) = payloads rest"

definition id_or_zero :: "pokemon_payload \<Rightarrow> int" where
  "id_or_zero p = (case payload_id p of None \<Rightarrow> 0 | Some i \<Rightarrow> i)"

definition by_id :: "pokemon_payload \<Rightarrow> pokemon_payload \<Rightarrow> int" where
  "by_id a b = id_or_zero a - id_or_zero b"

text \<open>
  The files on disk are a map from paths to contents. \<open>OUTPUT_PATH\<close> is written
  relative to the parent of the directory of the script. \<open>JSON.stringify\<close> is a
  parameter, as is the text of \<open>LIMIT\<close> in the URL of the index.
\<close>

type_synonym files = "string \<rightharpoonup> string"

definition OUTPUT_PATH :: string where
  "OUTPUT_PATH = ''src/data/pokemon.json''"

definition API_BASE :: string where
  "API_BASE = ''https://pokeapi.co/api/v2''"

record script_env =
  index_api :: "index_response network"
  detail_api :: detail_fetch
  stringify :: "pokemon_payload list \<Rightarrow> string"
  LIMIT :: string
  CONCURRENCY :: int

text \<open>
  \<open>main\<close>: the result is \<open>None\<close> while the schedule given has not brought every worker to
  its return; otherwise the promise of \<open>main\<close> is rejected with an error or fulfilled, and
  the files are as \<open>main\<close> left them.
\<close>

definition main :: "script_env \<Rightarrow> nat list \<Rightarrow> files \<Rightarrow> ((error + unit) \<times> files) option" where
  "main env schedule disk =
     (case fst (fetchJson (index_api env) (API_BASE @ ''/pokemon?limit='' @ LIMIT env) []) of
        Inl e \<Rightarrow> Some (Inl e, disk)
      | Inr list \<Rightarrow>
          (let entries = (case index_results list of None \<Rightarrow> [] | Some es \<Rightarrow> es);
               n_total = length entries;
               st = run_pool (detail_api env) entries schedule
                      (start_pool (detail_api env) entries (worker_count (CONCURRENCY env) n_total))
           in if all_returned st then
                (let filteredResults = js_sort by_id (payloads (results st))
                 in Some (Inr (), disk(OUTPUT_PATH \<mapsto> stringify env filteredResults)))
              else None))"

text \<open>
  The last statement of the script: \<open>main().catch(...)\<close> ends the process with exit
  code 1; otherwise the process ends with exit code 0.
\<close>

definition script :: "script_env \<Rightarrow> nat list \<Rightarrow> files \<Rightarrow> (nat \<times> files) option" where
  "script env schedule disk =
     (case main env schedule disk of
        None \<Rightarrow> None
      | Some (Inl e, disk') \<Rightarrow> Some (1, disk')
      | Some (Inr u, disk') \<Rightarrow> Some (0, disk'))"

text \<open>What the loop body does with item \<open>i\<close>, read off the two outcomes.\<close>

definition item_slot :: "detail_fetch \<Rightarrow> index_entry list \<Rightarrow> nat \<Rightarrow> slot" where
  "item_slot detail entries i =
     (case detail (entries ! i) i 0 of
        Inr p \<Rightarrow> Filled p
      | Inl e \<Rightarrow> (case detail (entries ! i) i 1 of Inr p \<Rightarrow> Filled p | Inl e' \<Rightarrow> NullSlot))"

definition item_events :: "detail_fetch \<Rightarrow> index_entry list \<Rightarrow> nat \<Rightarrow> event list" where
  "item_events detail entries i =
     (case detail (entries ! i) i 0 of
        Inr p \<Rightarrow> [Fetch i, Sleep i 100]
      | Inl e \<Rightarrow>
          [Fetch i, LogFailed i, Sleep i 500, Fetch i]
          @ (case detail (entries ! i) i 1 of Inr p \<Rightarrow> [] | Inl e' \<Rightarrow> [LogRetryFailed i])
          @ [Sleep i 100])"

text \<open>A schedule that resumes every worker in turn, \<open>k\<close> times over.\<close>

definition round_robin :: "nat \<Rightarrow> nat \<Rightarrow> nat list" where
  "round_robin n k = concat (replicate k [0..<n])"

section \<open>Invariant and progress measure of the worker pool\<close>

text \<open>
  The index a suspended worker is processing, and what must have been observed for that
  index when the worker is suspended there.
\<close>

fun holding :: "worker_state \<Rightarrow> nat option" where
  "holding (AwaitDetail i e) = Some i"
| "holding (AwaitBackoff i e) = Some i"
| "holding (AwaitRetry i e) = Some i"
| "holding Idle = None"
| "holding AwaitThrottle = None"
| "holding Returned = None"

fun partial_ok :: "detail_fetch \<Rightarrow> index_entry list \<Rightarrow> worker_state \<Rightarrow> event list \<Rightarrow> bool" where
  "partial_ok D es (AwaitDetail i e) evs = (e = es ! i \<and> evs = [Fetch i])"
| "partial_ok D es (AwaitBackoff i e) evs =
     (e = es ! i \<and> isl (D e i 0) \<and> evs = [Fetch i, LogFailed i, Sleep i 500])"
| "partial_ok D es (AwaitRetry i e) evs =
     (e = es ! i \<and> isl (D e i 0) \<and> evs = [Fetch i, LogFailed i, Sleep i 500, Fetch i])"
| "partial_ok D es Idle evs = True"
| "partial_ok D es AwaitThrottle evs = True"
| "partial_ok D es Returned evs = True"

text \<open>
  The invariant: the shared variables are in range and a returned worker has seen the end
  of the list; an index in process is claimed, unassigned, and observed as far as its
  worker has got; no two workers process the same index; a claimed index that is not in
  process is finished, with the slot and the events that its two outcomes determine; an
  unclaimed index is untouched.
\<close>

definition inv_shape :: "index_entry list \<Rightarrow> nat \<Rightarrow> pool \<Rightarrow> bool" where
  "inv_shape es n st \<longleftrightarrow>
     length (results st) = length es \<and> pointer st \<le> length es \<and> length (workers st) = n
     \<and> (\<forall>w<n. workers st ! w = Returned \<longrightarrow> pointer st = length es)"

definition inv_held :: "detail_fetch \<Rightarrow> index_entry list \<Rightarrow> nat \<Rightarrow> pool \<Rightarrow> bool" where
  "inv_held D es n st \<longleftrightarrow>
     (\<forall>w<n. \<forall>i. holding (workers st ! w) = Some i \<longrightarrow>
        i < pointer st \<and> results st ! i = Unassigned
        \<and> partial_ok D es (workers st ! w) (events_of i (events st)))"

definition inv_unique :: "nat \<Rightarrow> pool \<Rightarrow> bool" where
  "inv_unique n st \<longleftrightarrow>
     (\<forall>w<n. \<forall>w'<n. \<forall>i. holding (workers st ! w) = Some i \<longrightarrow>
        holding (workers st ! w') = Some i \<longrightarrow> w = w')"

definition item_done :: "detail_fetch \<Rightarrow> index_entry list \<Rightarrow> pool \<Rightarrow> nat \<Rightarrow> bool" where
  "item_done D es st i \<longleftrightarrow>
     results st ! i = item_slot D es i \<and> events_of i (events st) = item_events D es i"

definition inv_done :: "detail_fetch \<Rightarrow> index_entry list \<Rightarrow> nat \<Rightarrow> pool \<Rightarrow> bool" where
  "inv_done D es n st \<longleftrightarrow>
     (\<forall>i<pointer st. (\<exists>w<n. holding (workers st ! w) = Some i) \<or> item_done D es st i)"

definition inv_fresh :: "index_entry list \<Rightarrow> pool \<Rightarrow> bool" where
  "inv_fresh es st \<longleftrightarrow>
     (\<forall>i\<ge>pointer st. events_of i (events st) = []
        \<and> (i < length es \<longrightarrow> results st ! i = Unassigned))"

definition pool_inv :: "detail_fetch \<Rightarrow> index_entry list \<Rightarrow> nat \<Rightarrow> pool \<Rightarrow> bool" where
  "pool_inv D es n st \<longleftrightarrow>
     inv_shape es n st \<and> inv_held D es n st \<and> inv_unique n st \<and> inv_done D es n st
     \<and> inv_fresh es st"

text \<open>
  The number of pieces a worker can still run for its current item, and a bound on the
  pieces the pool can still run.
\<close>

fun rank :: "worker_state \<Rightarrow> nat" where
  "rank Idle = 1"
| "rank (AwaitDetail i e) = 4"
| "rank (AwaitBackoff i e) = 3"
| "rank (AwaitRetry i e) = 2"
| "rank AwaitThrottle = 1"
| "rank Returned = 0"

definition potential :: "nat \<Rightarrow> pool \<Rightarrow> nat" where
  "potential n_total st = 4 * (n_total - pointer st) + sum_list (map rank (workers st))"

text \<open>Fixtures: an index of four items; item 1 fails once and item 2 fails twice.\<close>

definition sample_payload :: "int \<Rightarrow> pokemon_payload" where
  "sample_payload i =
     \<lparr> payload_id = Some i, payload_name = Some ''pokemon'', payload_height = None,
       payload_weight = None, payload_baseExperience = None, payload_types = [],
       payload_abilities = [], payload_stats = [], payload_moves = [], payload_image = None,
       payload_spriteVariants = \<lparr> sprite_default = None, sprite_shiny = None \<rparr>,
       payload_generation = None, payload_habitat = None, payload_isLegendary = False,
       payload_isMythical = False, payload_flavorText = [], payload_evolutionChain = [],
       payload_locations = [] \<rparr>"

definition sample_detail :: detail_fetch where
  "sample_detail e i attempt =
     (if i = 1 \<and> attempt = 0 then Inl (FetchError (index_url e))
      else if i = 2 then Inl (FetchError (index_url e))
      else Inr (sample_payload (10 - int i)))"

definition sample_index :: "index_entry list" where
  "sample_index = map (\<lambda>n. \<lparr> index_name = n, index_url = n \<rparr>) [''a'', ''b'', ''c'', ''d'']"

definition sample_env :: "index_response network \<Rightarrow> script_env" where
  "sample_env api =
     \<lparr> index_api = api, detail_api = sample_detail,
       stringify = (\<lambda>ps. concat (map (\<lambda>p. case payload_id p of None \<Rightarrow> ''?''
                                        | Some i \<Rightarrow> if i = 7 then ''7'' else if i = 9 then ''9''
                                                     else if i = 10 then ''10'' else ''#'') ps)),
       LIMIT = ''251'', CONCURRENCY = 2 \<rparr>"

definition sample_run :: pool where
  "sample_run = run_pool sample_detail sample_index [1, 1, 1, 1, 0, 0, 0, 0, 0, 1, 1, 1, 1, 1]
                  (start_pool sample_detail sample_index 2)"

definition sample_index_api :: "index_response network" where
  "sample_index_api url = Inr \<lparr> index_results = Some sample_index \<rparr>"

section \<open>Properties of location extraction\<close>

lemma firsts_snoc: "firsts (xs @ [x]) = (if x \<in> set xs then firsts xs else firsts xs @ [x])"
  by (simp add: firsts_def)

lemma set_firsts: "set (firsts xs) = set xs" by (simp add: firsts_def)
lemma distinct_firsts: "distinct (firsts xs)" by (simp add: firsts_def)

lemma firsts_append: "firsts (xs @ ys) = firsts xs @ filter (\<lambda>y. y \<notin> set xs) (firsts ys)"
proof (induction ys rule: rev_induct)
  case Nil show ?case by (simp add: firsts_def)
next
  case (snoc y ys)
  have "firsts (xs @ ys @ [y]) = (if y \<in> set (xs @ ys) then firsts (xs @ ys) else firsts (xs @ ys) @ [y])"
    using firsts_snoc[of "xs @ ys" y] by simp
  then show ?case using snoc by (auto simp: firsts_snoc)
qed

lemma add_location_firsts:
  "add_location e (firsts ps) = firsts (ps @ add_location e [])"
  by (auto simp: add_location_def set_add_def firsts_snoc set_firsts split: option.splits)

lemma area_names_Cons: "area_names (e # es) = add_location e [] @ area_names es"
  by (simp add: area_names_def)

lemma area_names_snoc: "area_names (es @ [e]) = area_names es @ add_location e []"
  by (simp add: area_names_def)

lemma area_names_append: "area_names (xs @ ys) = area_names xs @ area_names ys"
  by (simp add: area_names_def)

lemma length_add_location: "length (add_location e locs) \<le> Suc (length locs)"
  by (simp add: add_location_def set_add_def split: option.splits)

lemma firsts_take_mono: "length (firsts (area_names (take k ds))) \<le> length (firsts (area_names ds))"
proof -
  have "area_names ds = area_names (take k ds) @ area_names (drop k ds)"
    by (metis append_take_drop_id area_names_append)
  then show ?thesis by (simp add: firsts_append)
qed

lemma locations_loop_invariant:
  "length (firsts (area_names ds)) < 12 \<Longrightarrow>
   locations_loop es (firsts (area_names ds)) (length ds) = (locs, v) \<Longrightarrow>
     length ds \<le> v \<and> v \<le> length (ds @ es) \<and> locs = firsts (area_names (take v (ds @ es)))
     \<and> length locs \<le> 12 \<and> (v < length (ds @ es) \<longrightarrow> length locs = 12)
     \<and> (\<forall>k<v. length (firsts (area_names (take k (ds @ es)))) < 12)"
proof (induction es arbitrary: ds)
  case Nil
  then have "locs = firsts (area_names ds)" "v = length ds" by simp_all
  moreover have "\<forall>k<length ds. length (firsts (area_names (take k ds))) < 12"
    using Nil.prems(1) firsts_take_mono[of _ ds] by (meson le_less_trans)
  ultimately show ?case using Nil.prems(1) by simp
next
  case (Cons e es)
  let ?l = "add_location e (firsts (area_names ds))"
  have l: "?l = firsts (area_names (ds @ [e]))"
    by (simp add: add_location_firsts area_names_snoc)
  have small: "\<forall>k\<le>length ds. length (firsts (area_names (take k (ds @ e # es)))) < 12"
    using Cons.prems(1) firsts_take_mono[of _ ds] by (auto intro: le_less_trans)
  show ?case
  proof (cases "12 \<le> length ?l")
    case True
    with Cons.prems(2) have r: "locs = ?l" "v = Suc (length ds)" by (simp_all add: Let_def)
    have "length ?l \<le> 12"
      using length_add_location[of e "firsts (area_names ds)"] Cons.prems(1) by simp
    with True have "length ?l = 12" by simp
    moreover have "take (Suc (length ds)) (ds @ e # es) = ds @ [e]" by simp
    ultimately show ?thesis using r l small by (simp add: less_Suc_eq_le)
  next
    case False
    with Cons.prems(2) have
      "locations_loop es (firsts (area_names (ds @ [e]))) (length (ds @ [e])) = (locs, v)"
      by (simp add: Let_def l)
    moreover from False l have "length (firsts (area_names (ds @ [e]))) < 12" by simp
    ultimately have "length (ds @ [e]) \<le> v \<and> v \<le> length ((ds @ [e]) @ es)
        \<and> locs = firsts (area_names (take v ((ds @ [e]) @ es)))
        \<and> length locs \<le> 12 \<and> (v < length ((ds @ [e]) @ es) \<longrightarrow> length locs = 12)
        \<and> (\<forall>k<v. length (firsts (area_names (take k ((ds @ [e]) @ es)))) < 12)"
      using Cons.IH[of "ds @ [e]"] by blast
    then show ?thesis
      unfolding append_assoc append_Cons append_Nil length_append_singleton
      by (meson Suc_leD)
  qed
qed

lemma locations_loop_spec:
  "locations_loop es [] 0 = (locs, v) \<Longrightarrow>
     length locs \<le> 12 \<and> distinct locs \<and> locs = take 12 (firsts (area_names es))
     \<and> v \<le> length es \<and> locs = firsts (area_names (take v es))
     \<and> (v < length es \<longrightarrow> length locs = 12)
     \<and> (\<forall>k<v. length (firsts (area_names (take k es))) < 12)"
proof -
  assume a: "locations_loop es [] 0 = (locs, v)"
  have "locations_loop es (firsts (area_names [])) (length ([]::encounter list)) = (locs, v)"
    using a by (simp add: firsts_def area_names_def)
  moreover have "length (firsts (area_names [])) < 12" by (simp add: firsts_def area_names_def)
  ultimately have inv: "v \<le> length ([] @ es) \<and> locs = firsts (area_names (take v ([] @ es)))
     \<and> length locs \<le> 12 \<and> (v < length ([] @ es) \<longrightarrow> length locs = 12)
     \<and> (\<forall>k<v. length (firsts (area_names (take k ([] @ es)))) < 12)"
    using locations_loop_invariant[of "[]" es locs v] by blast
  then have inv: "v \<le> length es \<and> locs = firsts (area_names (take v es))
     \<and> length locs \<le> 12 \<and> (v < length es \<longrightarrow> length locs = 12)
     \<and> (\<forall>k<v. length (firsts (area_names (take k es))) < 12)"
    unfolding append_Nil .
  then have locs: "locs = firsts (area_names (take v es))" by blast
  have pre: "firsts (area_names es) = locs @ filter (\<lambda>y. y \<notin> set (area_names (take v es))) (firsts (area_names (drop v es)))"
    unfolding locs using firsts_append[of "area_names (take v es)" "area_names (drop v es)"]
    by (simp add: area_names_append[symmetric])
  have len: "length locs \<le> 12" using inv by blast
  have "locs = take 12 (firsts (area_names es))"
  proof (cases "v < length es")
    case True
    with inv have "length locs = 12" by blast
    then show ?thesis using pre by simp
  next
    case False
    moreover from inv have "v \<le> length es" by blast
    ultimately have "drop v es = []" by simp
    then have "firsts (area_names es) = locs" using pre by (simp add: area_names_def firsts_def)
    then show ?thesis using len by simp
  qed
  moreover have "distinct locs" using locs by (simp add: distinct_firsts)
  ultimately show ?thesis using inv len by blast
qed

text \<open>
  Claim C6. When the encounters are fetched, \<open>fetchLocations\<close> returns the set built by
  the loop, which has at most 12 elements, no repetitions, and is the first 12 distinct
  humanized area names in order of first occurrence. The loop visits \<open>v\<close> entries: the
  result is already complete after them, entries are left unvisited only when 12 names
  were collected, and before the last visited entry fewer than 12 had been collected.
\<close>

theorem fetchLocations_first_twelve_early_exit:
  assumes "\<not> falsy url" and "net (url_text url) = Inr data"
    and "locations_loop data [] 0 = (locs, v)"
  shows "fetchLocations net url reqs = (Inr locs, reqs @ [url_text url])
     \<and> length locs \<le> 12 \<and> distinct locs \<and> locs = take 12 (firsts (area_names data))
     \<and> v \<le> length data \<and> locs = firsts (area_names (take v data))
     \<and> (v < length data \<longrightarrow> length locs = 12)
     \<and> (\<forall>k<v. length (firsts (area_names (take k data))) < 12)"
proof -
  have f: "fetchLocations net url reqs = (Inr locs, reqs @ [url_text url])"
    using assms by (simp add: fetchLocations_def fetchJson_def)
  have "length locs \<le> 12 \<and> distinct locs \<and> locs = take 12 (firsts (area_names data))
     \<and> v \<le> length data \<and> locs = firsts (area_names (take v data))
     \<and> (v < length data \<longrightarrow> length locs = 12)
     \<and> (\<forall>k<v. length (firsts (area_names (take k data))) < 12)"
    using assms(3) by (rule locations_loop_spec)
  with f show ?thesis by blast
qed

theorem fetchLocations_first_twelve_early_exit_witness:
  "fetchLocations (\<lambda>u. Inr sample_encounters) (Url ''https://pokeapi.co/api/v2/pokemon/1/encounters'') []
     = (Inr [''route 1'', ''route 2'', ''route 3'', ''route 4'', ''route 5'', ''route 6'',
             ''route 7'', ''route 8'', ''route 9'', ''viridian forest'', ''mt moon 1f'',
             ''mt moon b1f''],
        [''https://pokeapi.co/api/v2/pokemon/1/encounters''])
   \<and> snd (locations_loop sample_encounters [] 0) = 14 \<and> length sample_encounters = 16"
proof -
  have l: "locations_loop sample_encounters [] 0 =
         ([''route 1'', ''route 2'', ''route 3'', ''route 4'', ''route 5'', ''route 6'',
             ''route 7'', ''route 8'', ''route 9'', ''viridian forest'', ''mt moon 1f'',
             ''mt moon b1f''], 14)"
    by (simp add: sample_encounters_def area_def add_location_def set_add_def formatName_def)
  have u: "\<not> falsy (Url ''https://pokeapi.co/api/v2/pokemon/1/encounters'')" by simp
  have n: "(\<lambda>u. Inr sample_encounters :: error + encounter list)
             (url_text (Url ''https://pokeapi.co/api/v2/pokemon/1/encounters'')) = Inr sample_encounters"
    by simp
  have "length sample_encounters = 16" by (simp add: sample_encounters_def)
  then show ?thesis
    using fetchLocations_first_twelve_early_exit [OF u n l, of "[]"] l by simp
qed

section \<open>Properties of evolution-chain extraction\<close>

lemma traverse_preorder_acc:
  "traverse n s c = c @ map entry_of (case n of None \<Rightarrow> [] | Some m \<Rightarrow> preorder s m)"
  "traverse_each es s c = c @ map entry_of (preorder_each s es)"
proof (induction n s c and es s c rule: traverse_traverse_each.induct)
  case (1 stage out)
  show ?case by simp
next
  case (2 sp stage out)
  show ?case by (simp add: entry_of_def)
next
  case (3 sp evolutions stage out)
  then show ?case by (simp add: entry_of_def)
next
  case (4 stage out)
  show ?case by simp
next
  case (5 evolution rest stage out)
  then show ?case by (cases evolution) simp_all
qed

lemma preorder_each_children:
  "preorder_each d es =
     concat (map (preorder d) (concat (map (\<lambda>e. case e of None \<Rightarrow> [] | Some n \<Rightarrow> [n]) es)))"
  by (induction es) (auto split: option.splits)

text \<open>\<open>preorder\<close> lists a node at its depth, then each child's subtree one level deeper.\<close>

lemma preorder_children:
  "preorder d n = (n, d) # concat (map (preorder (Suc d)) (children n))"
  by (cases n rule: children.cases) (simp_all add: preorder_each_children)

text \<open>
  Claim C3. The array filled by \<open>traverse\<close> from the root at stage 0 is the preorder
  listing of the tree, one entry per node, each entry carrying the node's depth as its
  stage; \<open>fetchEvolutionChain\<close> returns it. A root with two childless branches gives
  stages 0, 1, 1. A node without species reference gives an entry with null id and
  empty name at its stage.
\<close>

theorem traverse_is_preorder_with_depth:
  "traverse (Some root) 0 [] = map entry_of (preorder 0 root)
   \<and> (\<not> falsy url \<and> net (url_text url) = Inr \<lparr> chain = Some root \<rparr> \<longrightarrow>
        fetchEvolutionChain net url reqs =
          (Inr (map entry_of (preorder 0 root)), reqs @ [url_text url]))
   \<and> (children a = [] \<and> children b = [] \<longrightarrow>
        map evo_stage (traverse (Some (EvoNode sp (Some [Some a, Some b]))) 0 []) = [0, 1, 1])
   \<and> entry_of (EvoNode None kids, d) = \<lparr> evo_id = None, evo_name = [], evo_stage = d \<rparr>"
  by (simp add: traverse_preorder_acc preorder_children entry_of_def chain_entry_def
      fetchEvolutionChain_def fetchJson_def)

theorem traverse_is_preorder_with_depth_witness:
  "traverse (Some sample_tree) 0 [] =
     [\<lparr> evo_id = Some 265, evo_name = ''wurmple'', evo_stage = 0 \<rparr>,
      \<lparr> evo_id = Some 266, evo_name = ''silcoon'', evo_stage = 1 \<rparr>,
      \<lparr> evo_id = None, evo_name = [], evo_stage = 1 \<rparr>]
   \<and> fetchEvolutionChain (\<lambda>u. Inr \<lparr> chain = Some sample_tree \<rparr>) (Url ''chain/135/'') [] =
       (Inr (map entry_of (preorder 0 sample_tree)), [''chain/135/''])
   \<and> map evo_stage (traverse (Some sample_tree) 0 []) = [0, 1, 1]"
proof -
  have e: "map entry_of (preorder 0 sample_tree) =
     [\<lparr> evo_id = Some 265, evo_name = ''wurmple'', evo_stage = 0 \<rparr>,
      \<lparr> evo_id = Some 266, evo_name = ''silcoon'', evo_stage = 1 \<rparr>,
      \<lparr> evo_id = None, evo_name = [], evo_stage = 1 \<rparr>]"
    by (simp add: sample_tree_def species_ref_def entry_of_def chain_entry_def match_id_def
        is_digit_def decimal_def)
  have t: "sample_tree = EvoNode (species sample_tree)
             (Some [Some (EvoNode (species_ref ''silcoon'' ''https://pokeapi.co/api/v2/pokemon-species/266/'') None),
                    Some (EvoNode None (Some []))])"
    by (simp add: sample_tree_def)
  show ?thesis
    using traverse_is_preorder_with_depth
      [of sample_tree "Url ''chain/135/''" "\<lambda>u. Inr \<lparr> chain = Some sample_tree \<rparr>" "[]"
          "EvoNode (species_ref ''silcoon'' ''https://pokeapi.co/api/v2/pokemon-species/266/'') None"
          "EvoNode None (Some [])" "species sample_tree" "Some []" 1]
      e t
    by simp
qed

section \<open>Missing sub-resource URLs\<close>

text \<open>
  Claim C10. Called with \<open>undefined\<close>, \<open>null\<close> or the empty string as URL,
  \<open>fetchEvolutionChain\<close> and \<open>fetchLocations\<close> return the empty list, not an error, and
  the list of requests made is unchanged.
\<close>

theorem missing_url_gives_empty_list_without_fetch:
  "fetchEvolutionChain net Undefined reqs = (Inr [], reqs)
   \<and> fetchEvolutionChain net Null reqs = (Inr [], reqs)
   \<and> fetchEvolutionChain net (Url []) reqs = (Inr [], reqs)
   \<and> fetchLocations net' Undefined reqs = (Inr [], reqs)
   \<and> fetchLocations net' Null reqs = (Inr [], reqs)
   \<and> fetchLocations net' (Url []) reqs = (Inr [], reqs)"
  by (simp add: fetchEvolutionChain_def fetchLocations_def)

section \<open>Properties of sorting and move extraction\<close>

lemma insert_by_insort: "insert_by (\<lambda>a b. f a - f b) x xs = insort_key f x xs"
  for f :: "'a \<Rightarrow> int"
  by (induction xs) auto

lemma js_sort_sort_key: "js_sort (\<lambda>a b. f a - f b) xs = sort_key f xs"
  for f :: "'a \<Rightarrow> int"
  by (induction xs) (simp_all add: js_sort_def insert_by_insort)

lemma js_sort_by_level: "js_sort by_level xs = sort_key level_or_zero xs"
  using js_sort_sort_key[of level_or_zero xs] by (simp add: by_level_def[abs_def])

lemma mset_insert_by: "mset (insert_by c x xs) = add_mset x (mset xs)"
  by (induction xs) auto

lemma mset_js_sort: "mset (js_sort c xs) = mset xs"
  by (induction xs) (simp_all add: js_sort_def mset_insert_by)

lemma extractMoves_parts:
  "extractMoves (Some ms) =
     take 30 (sort_key level_or_zero (filter has_level (named_moves ms)))
     @ take 20 (filter (\<lambda>m. \<not> has_level m) (named_moves ms))"
  by (simp add: extractMoves_def Let_def js_sort_by_level named_moves_def)

lemma filter_take_all: "\<forall>x\<in>set xs. P x \<Longrightarrow> filter P (take n xs) = take n xs"
  by (meson filter_True in_set_takeD)

lemma filter_take_none: "\<forall>x\<in>set xs. \<not> P x \<Longrightarrow> filter P (take n xs) = []"
  by (metis filter_False in_set_takeD)

lemma extractMoves_levelled:
  "filter has_level (extractMoves (Some ms)) =
     take 30 (sort_key level_or_zero (filter has_level (named_moves ms)))"
  by (simp add: extractMoves_parts filter_take_all filter_take_none)

lemma extractMoves_others:
  "filter (\<lambda>m. \<not> has_level m) (extractMoves (Some ms)) =
     take 20 (filter (\<lambda>m. \<not> has_level m) (named_moves ms))"
  by (simp add: extractMoves_parts filter_take_all filter_take_none)

lemma extractMoves_split:
  "extractMoves ms = filter has_level (extractMoves ms)
      @ filter (\<lambda>m. \<not> has_level m) (extractMoves ms)"
proof (cases ms)
  case None then show ?thesis by (simp add: extractMoves_def)
next
  case (Some a)
  show ?thesis unfolding Some extractMoves_levelled extractMoves_others
    by (rule extractMoves_parts)
qed

lemma extractMoves_levelled_sorted:
  "sorted (map level_or_zero (filter has_level (extractMoves ms)))"
proof (cases ms)
  case None then show ?thesis by (simp add: extractMoves_def)
next
  case (Some a)
  show ?thesis unfolding Some extractMoves_levelled
    by (simp add: take_map[symmetric] sorted_wrt_take)
qed

text \<open>
  Claim C2, as stated: the result is the level-sorted, capped listing of all moves of
  the input. It fails for a move without a name, which \<open>extractMoves\<close> drops although
  it has a level.
\<close>

theorem extractMoves_drops_unnamed_counterexample:
  "extractMoves (Some [unnamed_move]) \<noteq> spec_extractMoves [unnamed_move]
   \<and> extractMoves (Some [unnamed_move]) = []
   \<and> spec_extractMoves [unnamed_move] =
       [\<lparr> move_name = [], move_method = ''level-up'', levelLearnedAt = Some 5 \<rparr>]"
  by (simp add: extractMoves_def spec_extractMoves_def unnamed_move_def raw_def learnt_def
      to_move_def is_level_up_def method_name_def js_sort_def has_level_def)

text \<open>
  Claim C2, amended: the result is the level-sorted, capped listing of the moves that
  have a non-empty name: those with a level, ascending by level, at most 30, followed by
  those without a level in input order, at most 20; at most 50 entries in all. On an
  input whose moves all have a name this is the listing of all moves.
\<close>

theorem extractMoves_named_moves_by_level_then_others:
  "extractMoves (Some ms) = spec_extractMoves (filter (\<lambda>mv. move_name (to_move mv) \<noteq> []) ms)
   \<and> ((\<forall>mv\<in>set ms. move_name (to_move mv) \<noteq> []) \<longrightarrow> extractMoves (Some ms) = spec_extractMoves ms)
   \<and> length (extractMoves (Some ms)) \<le> 50
   \<and> sorted (map level_or_zero (filter has_level (extractMoves (Some ms))))
   \<and> subseq (filter (\<lambda>m. \<not> has_level m) (extractMoves (Some ms))) (map to_move ms)"
proof -
  have a: "extractMoves (Some ms) = spec_extractMoves (filter (\<lambda>mv. move_name (to_move mv) \<noteq> []) ms)"
    by (simp add: extractMoves_parts named_moves_def spec_extractMoves_def filter_map comp_def)
  have b: "(\<forall>mv\<in>set ms. move_name (to_move mv) \<noteq> []) \<longrightarrow> extractMoves (Some ms) = spec_extractMoves ms"
    unfolding a by simp
  have c: "length (extractMoves (Some ms)) \<le> 50" by (simp add: extractMoves_parts)
  have "subseq (take 20 (filter (\<lambda>m. \<not> has_level m) (named_moves ms))) (map to_move ms)"
    unfolding named_moves_def
    by (meson subseq_filter_left subseq_order.trans take_is_prefix prefix_imp_subseq)
  then have d: "subseq (filter (\<lambda>m. \<not> has_level m) (extractMoves (Some ms))) (map to_move ms)"
    by (simp only: extractMoves_others)
  show ?thesis using a b c d extractMoves_levelled_sorted by blast
qed

theorem extractMoves_named_moves_by_level_then_others_witness:
  "map (\<lambda>mv. move_name (to_move mv)) sample_moves =
       [''tackle'', ''zap-cannon'', ''growl'', ''absorb'', ''pound'']
   \<and> spec_extractMoves sample_moves =
       [\<lparr> move_name = ''growl'', move_method = ''level-up'', levelLearnedAt = Some 1 \<rparr>,
        \<lparr> move_name = ''tackle'', move_method = ''level-up'', levelLearnedAt = Some 7 \<rparr>,
        \<lparr> move_name = ''zap-cannon'', move_method = ''machine'', levelLearnedAt = None \<rparr>,
        \<lparr> move_name = ''absorb'', move_method = ''unknown'', levelLearnedAt = None \<rparr>,
        \<lparr> move_name = ''pound'', move_method = ''level-up'', levelLearnedAt = None \<rparr>]"
proof -
  have n: "\<forall>mv\<in>set sample_moves. move_name (to_move mv) \<noteq> []"
    by (simp add: sample_moves_def raw_def to_move_def)
  have "extractMoves (Some sample_moves) =
       [\<lparr> move_name = ''growl'', move_method = ''level-up'', levelLearnedAt = Some 1 \<rparr>,
        \<lparr> move_name = ''tackle'', move_method = ''level-up'', levelLearnedAt = Some 7 \<rparr>,
        \<lparr> move_name = ''zap-cannon'', move_method = ''machine'', levelLearnedAt = None \<rparr>,
        \<lparr> move_name = ''absorb'', move_method = ''unknown'', levelLearnedAt = None \<rparr>,
        \<lparr> move_name = ''pound'', move_method = ''level-up'', levelLearnedAt = None \<rparr>]"
    by (simp add: extractMoves_def sample_moves_def raw_def learnt_def to_move_def
        is_level_up_def method_name_def js_sort_def by_level_def level_or_zero_def has_level_def)
  moreover have "map (\<lambda>mv. move_name (to_move mv)) sample_moves =
       [''tackle'', ''zap-cannon'', ''growl'', ''absorb'', ''pound'']"
    by (simp add: sample_moves_def raw_def to_move_def)
  ultimately show ?thesis
    using extractMoves_named_moves_by_level_then_others [of sample_moves] n by simp
qed

section \<open>Properties of the displayed move list\<close>

text \<open>
  Claim C9, as stated: the displayed list is a prefix of the ingested list. It fails
  when moves without a level are not ingested in name order: the page sorts them.
\<close>

theorem combinedMoves_not_prefix_counterexample:
  "\<not> prefix (combinedMoves codepoint_compare (extractMoves (Some sample_moves)))
        (extractMoves (Some sample_moves))
   \<and> map move_name (extractMoves (Some sample_moves)) =
       [''growl'', ''tackle'', ''zap-cannon'', ''absorb'', ''pound'']
   \<and> map move_name (combinedMoves codepoint_compare (extractMoves (Some sample_moves))) =
       [''growl'', ''tackle'', ''absorb'', ''pound'', ''zap-cannon'']"
  by (simp add: extractMoves_def sample_moves_def raw_def learnt_def to_move_def
      is_level_up_def method_name_def js_sort_def by_level_def level_or_zero_def
      combinedMoves_def by_name_def MOVES_DISPLAY_LIMIT_def has_level_def)

text \<open>
  Claim C9, amended: the displayed list is the first 16 entries of the ingested moves
  with a level, in their ingested order, followed by the ingested moves without a level
  sorted by name. The moves with a level are a prefix of the ingested list, every
  displayed move is an ingested move, and with 16 or more moves with a level, or with
  the moves without a level ingested in name order, the displayed list is the first 16
  entries of the ingested list.
\<close>

theorem combinedMoves_levelled_prefix_then_others_by_name:
  "combinedMoves lc (extractMoves raws) =
      take 16 (filter has_level (extractMoves raws)
               @ js_sort (by_name lc) (filter (\<lambda>m. \<not> has_level m) (extractMoves raws)))
   \<and> prefix (filter has_level (extractMoves raws)) (extractMoves raws)
   \<and> mset (combinedMoves lc (extractMoves raws)) \<subseteq># mset (extractMoves raws)
   \<and> (16 \<le> length (filter has_level (extractMoves raws)) \<longrightarrow>
        combinedMoves lc (extractMoves raws) = take 16 (extractMoves raws))
   \<and> (js_sort (by_name lc) (filter (\<lambda>m. \<not> has_level m) (extractMoves raws))
          = filter (\<lambda>m. \<not> has_level m) (extractMoves raws) \<longrightarrow>
        combinedMoves lc (extractMoves raws) = take 16 (extractMoves raws))"
proof -
  let ?L = "filter has_level (extractMoves raws)"
  let ?O = "filter (\<lambda>m. \<not> has_level m) (extractMoves raws)"
  have s: "js_sort by_level ?L = ?L"
    by (simp add: js_sort_by_level sort_key_id_if_sorted extractMoves_levelled_sorted)
  have a: "combinedMoves lc (extractMoves raws) = take 16 (?L @ js_sort (by_name lc) ?O)"
    by (simp add: combinedMoves_def Let_def s MOVES_DISPLAY_LIMIT_def)
  have sp: "extractMoves raws = ?L @ ?O" by (rule extractMoves_split)
  then have b: "prefix ?L (extractMoves raws)" by (metis prefixI)
  have "mset (?L @ js_sort (by_name lc) ?O) = mset (extractMoves raws)"
    using sp by (metis mset_append mset_js_sort)
  then have c: "mset (combinedMoves lc (extractMoves raws)) \<subseteq># mset (extractMoves raws)"
    unfolding a by (metis append_take_drop_id mset_append mset_subset_eq_add_left)
  have d: "16 \<le> length ?L \<longrightarrow> combinedMoves lc (extractMoves raws) = take 16 (extractMoves raws)"
  proof
    assume l: "16 \<le> length ?L"
    then have "take 16 (?L @ js_sort (by_name lc) ?O) = take 16 ?L" by simp
    moreover have "take 16 (?L @ ?O) = take 16 ?L" using l by simp
    ultimately show "combinedMoves lc (extractMoves raws) = take 16 (extractMoves raws)"
      using a sp by metis
  qed
  have e: "js_sort (by_name lc) ?O = ?O \<longrightarrow>
             combinedMoves lc (extractMoves raws) = take 16 (extractMoves raws)"
    using a sp by metis
  show ?thesis by (intro conjI a b c d e)
qed


theorem combinedMoves_levelled_prefix_then_others_by_name_witness:
  "16 \<le> length (filter has_level (extractMoves (Some many_moves)))
   \<and> combinedMoves codepoint_compare (extractMoves (Some many_moves)) =
       take 16 (extractMoves (Some many_moves))
   \<and> map level_or_zero (combinedMoves codepoint_compare (extractMoves (Some many_moves))) =
       [0, 1, 2, 3, 4, 5, 6, 7, 8, 9, 10, 11, 12, 13, 14, 15]"
proof -
  have m: "map level_or_zero (take 16 (extractMoves (Some many_moves))) =
             [0, 1, 2, 3, 4, 5, 6, 7, 8, 9, 10, 11, 12, 13, 14, 15]"
    by code_simp
  have h: "16 \<le> length (filter has_level (extractMoves (Some many_moves)))"
    by code_simp
  have "combinedMoves codepoint_compare (extractMoves (Some many_moves)) =
          take 16 (extractMoves (Some many_moves))"
    using combinedMoves_levelled_prefix_then_others_by_name
      [of codepoint_compare "Some many_moves"] h by blast
  then show ?thesis using h m by simp
qed

section \<open>Properties of the query engine\<close>

lemma set_js_sort: "set (js_sort c xs) = set xs"
  by (metis mset_js_sort set_mset_mset)

text \<open>
  Claim C1. With a non-empty type selection, every record returned by
  \<open>filterAndSortPokemon\<close> has all of the selected types among its types.
\<close>

theorem filterAndSortPokemon_type_filter_conjunctive:
  assumes "selectedTypes f \<noteq> []" and "p \<in> set (filterAndSortPokemon lc coll f)"
  shows "set (selectedTypes f) \<subseteq> set (types p)"
  using assms(2)
  by (auto simp: filterAndSortPokemon_def set_js_sort matches_types_def list_all_iff)

theorem filterAndSortPokemon_type_filter_conjunctive_witness:
  "map entry_name (filterAndSortPokemon codepoint_compare sample_collection
                    (sample_filter [''grass'', ''poison''])) = [''oddish'', ''bulbasaur'']
   \<and> filterAndSortPokemon codepoint_compare sample_collection
         (sample_filter [''grass'', ''fire'']) = []
   \<and> set [''grass'', ''poison''] \<subseteq> set (types (sample_entry 43 ''oddish'' [''grass'', ''poison'']))"
proof -
  have r: "filterAndSortPokemon codepoint_compare sample_collection
             (sample_filter [''grass'', ''poison''])
           = [sample_entry 43 ''oddish'' [''grass'', ''poison''], sample_entry 1 ''bulbasaur'' [''grass'', ''poison'']]"
    by code_simp
  have n: "selectedTypes (sample_filter [''grass'', ''poison'']) \<noteq> []"
    by (simp add: sample_filter_def)
  have m: "sample_entry 43 ''oddish'' [''grass'', ''poison'']
           \<in> set (filterAndSortPokemon codepoint_compare sample_collection
                    (sample_filter [''grass'', ''poison'']))"
    unfolding r by simp
  have e: "filterAndSortPokemon codepoint_compare sample_collection
         (sample_filter [''grass'', ''fire'']) = []"
    by code_simp
  have a: "map entry_name (filterAndSortPokemon codepoint_compare sample_collection
                    (sample_filter [''grass'', ''poison''])) = [''oddish'', ''bulbasaur'']"
    by code_simp
  have t: "selectedTypes (sample_filter [''grass'', ''poison'']) = [''grass'', ''poison'']"
    by (simp add: sample_filter_def)
  show ?thesis
    using filterAndSortPokemon_type_filter_conjunctive [OF n m] e a unfolding t
    by (intro conjI)
qed

lemma trim_Nil_iff: "trim s = [] \<longleftrightarrow> (\<forall>c\<in>set s. is_space c)"
proof -
  have "trim s = [] \<longleftrightarrow> (\<forall>x\<in>set (dropWhile is_space s). is_space x)"
    by (simp add: trim_def)
  also have "\<dots> \<longleftrightarrow> dropWhile is_space s = []"
    using hd_dropWhile[of is_space s] by (metis empty_iff empty_set list.set_sel(1))
  also have "\<dots> \<longleftrightarrow> (\<forall>c\<in>set s. is_space c)" by simp
  finally show ?thesis .
qed

lemma js_includes_sublist: "js_includes hay needle \<longleftrightarrow> sublist needle hay"
  by (induction hay) (auto simp: sublist_Cons_right)

text \<open>
  Claim C5. \<open>getAutocompleteSuggestions\<close> returns nothing for a query that is empty or
  white space only. Otherwise it returns the first \<open>n\<close> records of the collection, in
  collection order, whose lower-cased name contains the trimmed, lower-cased query: at
  most \<open>n\<close> records, each matching by name, a subsequence of the collection, ascending
  by identifier when the collection is.
\<close>

theorem getAutocompleteSuggestions_first_name_matches:
  "((\<forall>c\<in>set query. is_space c) \<longrightarrow> getAutocompleteSuggestions coll query n = [])
   \<and> length (getAutocompleteSuggestions coll query n) \<le> n
   \<and> (\<forall>p\<in>set (getAutocompleteSuggestions coll query n).
         sublist (to_lower (trim query)) (to_lower (entry_name p)))
   \<and> subseq (getAutocompleteSuggestions coll query n) coll
   \<and> (sorted (map entry_id coll) \<longrightarrow> sorted (map entry_id (getAutocompleteSuggestions coll query n)))
   \<and> (\<not> (\<forall>c\<in>set query. is_space c) \<longrightarrow> getAutocompleteSuggestions coll query n =
         take n (filter (\<lambda>p. sublist (to_lower (trim query)) (to_lower (entry_name p))) coll))"
proof -
  let ?r = "getAutocompleteSuggestions coll query n"
  let ?m = "filter (\<lambda>p. sublist (to_lower (trim query)) (to_lower (entry_name p))) coll"
  have q: "to_lower (trim query) = [] \<longleftrightarrow> (\<forall>c\<in>set query. is_space c)"
    by (simp add: to_lower_def trim_Nil_iff)
  have r: "?r = (if \<forall>c\<in>set query. is_space c then [] else take n ?m)"
    using q by (simp add: getAutocompleteSuggestions_def Let_def js_includes_sublist)
  have sub: "subseq ?r ?m"
    unfolding r by (simp add: take_is_prefix prefix_imp_subseq)
  then have a: "subseq ?r coll" by (meson subseq_filter_left subseq_order.trans)
  have b: "\<forall>p\<in>set ?r. sublist (to_lower (trim query)) (to_lower (entry_name p))"
    unfolding r by (auto dest: in_set_takeD)
  have c: "sorted (map entry_id coll) \<longrightarrow> sorted (map entry_id ?r)"
    unfolding r by (simp add: take_map[symmetric] sorted_wrt_take sorted_filter)
  have d: "length ?r \<le> n" unfolding r by simp
  have e: "(\<forall>c\<in>set query. is_space c) \<longrightarrow> ?r = []" unfolding r by simp
  have f: "\<not> (\<forall>c\<in>set query. is_space c) \<longrightarrow> ?r = take n ?m" unfolding r by simp
  show ?thesis by (intro conjI e d b a c f)
qed

theorem getAutocompleteSuggestions_first_name_matches_witness:
  "map entry_name (getAutocompleteSuggestions sample_collection '' Pi'' 2) = [''pidgey'', ''pidgeotto'']
   \<and> getAutocompleteSuggestions sample_collection [] 2 = []
   \<and> getAutocompleteSuggestions sample_collection ''  '' 2 = []
   \<and> getAutocompleteSuggestions sample_collection ''grass'' 2 = []
   \<and> sorted (map entry_id (getAutocompleteSuggestions sample_collection '' Pi'' 2))"
proof -
  have s: "sorted (map entry_id sample_collection)"
    by code_simp
  have w: "\<forall>c\<in>set ''  ''. is_space c" by (simp add: is_space_def)
  have a: "map entry_name (getAutocompleteSuggestions sample_collection '' Pi'' 2)
             = [''pidgey'', ''pidgeotto'']"
    by code_simp
  have b: "getAutocompleteSuggestions sample_collection ''grass'' 2 = []"
    by code_simp
  have c: "getAutocompleteSuggestions sample_collection ''  '' 2 = []"
    using getAutocompleteSuggestions_first_name_matches [of "''  ''" sample_collection 2] w
    by blast
  have d: "getAutocompleteSuggestions sample_collection [] 2 = []"
    using getAutocompleteSuggestions_first_name_matches [of "[]" sample_collection 2]
    by simp
  have e: "sorted (map entry_id (getAutocompleteSuggestions sample_collection '' Pi'' 2))"
    using getAutocompleteSuggestions_first_name_matches [of "'' Pi''" sample_collection 2] s
    by blast
  show ?thesis by (intro conjI a d c b e)
qed

section \<open>Properties of the worker pool\<close>

lemma events_of_append [simp]: "events_of i (xs @ ys) = events_of i xs @ events_of i ys"
  by (simp add: events_of_def)

lemma events_of_simps [simp]:
  "events_of i [] = []"
  "events_of i (Fetch j # evs) = (if i = j then Fetch j # events_of i evs else events_of i evs)"
  "events_of i (LogFailed j # evs) = (if i = j then LogFailed j # events_of i evs else events_of i evs)"
  "events_of i (LogRetryFailed j # evs) = (if i = j then LogRetryFailed j # events_of i evs else events_of i evs)"
  "events_of i (Sleep j ms # evs) = (if i = j then Sleep j ms # events_of i evs else events_of i evs)"
  "events_of i (Progress c # evs) = events_of i evs"
  by (auto simp: events_of_def)

lemma events_of_other:
  assumes "\<forall>e\<in>set new. event_index e = Some j \<or> event_index e = None" and "i \<noteq> j"
  shows "events_of i new = []"
  using assms by (auto simp: events_of_def filter_empty_conv)

lemma item_step_inv:
  assumes inv: "pool_inv D es n st" and w: "w < n"
    and W: "workers st' = (workers st)[w := s']"
    and R: "results st' = (results st)[j := v]"
    and E: "events st' = events st @ new"
    and new: "\<forall>e\<in>set new. event_index e = Some j \<or> event_index e = None"
    and P: "pointer st \<le> pointer st'" "pointer st' \<le> length es" "j < pointer st'"
    and Pj: "\<forall>i<pointer st'. i \<noteq> j \<longrightarrow> i < pointer st"
    and old: "holding (workers st ! w) = Some j
              \<or> (holding (workers st ! w) = None \<and> j = pointer st)"
    and status: "(holding s' = Some j \<and> v = Unassigned
                   \<and> partial_ok D es s' (events_of j (events st) @ events_of j new))
               \<or> (holding s' = None \<and> v = item_slot D es j
                   \<and> events_of j (events st) @ events_of j new = item_events D es j)"
    and ret: "s' = Returned \<longrightarrow> pointer st' = length es"
  shows "pool_inv D es n st'"
proof -
  have sh: "inv_shape es n st" and he: "inv_held D es n st" and un: "inv_unique n st"
    and dn: "inv_done D es n st" and fr: "inv_fresh es st"
    using inv by (simp_all add: pool_inv_def)
  have len: "length (workers st) = n" "length (results st) = length es"
    "pointer st \<le> length es"
    using sh by (simp_all add: inv_shape_def)
  have Wsame: "workers st' ! w' = workers st ! w'" if "w' \<noteq> w" for w'
    using that by (simp add: W)
  have Wnew: "workers st' ! w = s'"
    using w len by (simp add: W)
  have Esame: "events_of i (events st') = events_of i (events st)" if "i \<noteq> j" for i
    using events_of_other[OF new that] by (simp add: E)
  have Ej: "events_of j (events st') = events_of j (events st) @ events_of j new"
    by (simp add: E)
  have Rsame: "results st' ! i = results st ! i" if "i \<noteq> j" for i
    using that by (simp add: R)
  have jlen: "j < length (results st)" using P len by simp
  have Rj: "results st' ! j = v" using jlen by (simp add: R)
  have others: "holding (workers st ! w') \<noteq> Some j" if "w' < n" "w' \<noteq> w" for w'
  proof
    assume h: "holding (workers st ! w') = Some j"
    from old show False
    proof
      assume "holding (workers st ! w) = Some j"
      with h un that w show False by (auto simp: inv_unique_def)
    next
      assume "holding (workers st ! w) = None \<and> j = pointer st"
      moreover from h he that have "j < pointer st" by (auto simp: inv_held_def)
      ultimately show False by simp
    qed
  qed
  have wold: "holding (workers st ! w) = Some i \<Longrightarrow> i = j" for i
    using old by auto
  have 1: "inv_shape es n st'"
    unfolding inv_shape_def
  proof (intro conjI allI impI)
    show "length (results st') = length es" using len by (simp add: R)
    show "pointer st' \<le> length es" by (rule P)
    show "length (workers st') = n" using len by (simp add: W)
    fix w' assume a: "w' < n" "workers st' ! w' = Returned"
    show "pointer st' = length es"
    proof (cases "w' = w")
      case True
      with a Wnew ret show ?thesis by simp
    next
      case False
      with a Wsame have "workers st ! w' = Returned" by simp
      with sh a have "pointer st = length es" by (simp add: inv_shape_def)
      with P show ?thesis by simp
    qed
  qed
  have 2: "inv_held D es n st'"
    unfolding inv_held_def
  proof (intro allI impI)
    fix w' i assume a: "w' < n" "holding (workers st' ! w') = Some i"
    show "i < pointer st' \<and> results st' ! i = Unassigned
          \<and> partial_ok D es (workers st' ! w') (events_of i (events st'))"
    proof (cases "w' = w")
      case True
      with a Wnew have h: "holding s' = Some i" by simp
      with status have "i = j" "v = Unassigned"
        "partial_ok D es s' (events_of j (events st) @ events_of j new)"
        by auto
      then show ?thesis using P Rj Ej True Wnew by simp
    next
      case False
      with a Wsame have h: "holding (workers st ! w') = Some i" by simp
      with others[OF a(1) False] have ij: "i \<noteq> j" by auto
      from h he a have "i < pointer st" "results st ! i = Unassigned"
        "partial_ok D es (workers st ! w') (events_of i (events st))"
        by (auto simp: inv_held_def)
      then show ?thesis using P Rsame[OF ij] Esame[OF ij] Wsame[OF False] by simp
    qed
  qed
  have 3: "inv_unique n st'"
    unfolding inv_unique_def
  proof (intro allI impI)
    fix w1 w2 i
    assume a: "w1 < n" "w2 < n" "holding (workers st' ! w1) = Some i"
      "holding (workers st' ! w2) = Some i"
    have newj: "holding s' = Some i \<Longrightarrow> i = j" using status by auto
    show "w1 = w2"
    proof (cases "w1 = w")
      case w1: True
      show ?thesis
      proof (cases "w2 = w")
        case True with w1 show ?thesis by simp
      next
        case False
        from a(3) w1 Wnew have "i = j" using newj by simp
        with a(4) Wsame[OF False] others[OF a(2) False] show ?thesis by simp
      qed
    next
      case w1: False
      show ?thesis
      proof (cases "w2 = w")
        case True
        from a(4) True Wnew have "i = j" using newj by simp
        with a(3) Wsame[OF w1] others[OF a(1) w1] show ?thesis by simp
      next
        case False
        with a w1 Wsame un show ?thesis by (auto simp: inv_unique_def)
      qed
    qed
  qed
  have 4: "inv_done D es n st'"
    unfolding inv_done_def
  proof (intro allI impI)
    fix i assume a: "i < pointer st'"
    show "(\<exists>w<n. holding (workers st' ! w) = Some i) \<or> item_done D es st' i"
    proof (cases "i = j")
      case True
      from status show ?thesis
      proof
        assume "holding s' = Some j \<and> v = Unassigned
                 \<and> partial_ok D es s' (events_of j (events st) @ events_of j new)"
        then have "holding (workers st' ! w) = Some i" using Wnew True by simp
        with w show ?thesis by blast
      next
        assume "holding s' = None \<and> v = item_slot D es j
                 \<and> events_of j (events st) @ events_of j new = item_events D es j"
        then have "item_done D es st' i" using True Rj Ej by (simp add: item_done_def)
        then show ?thesis ..
      qed
    next
      case False
      with a Pj have "i < pointer st" by simp
      with dn have "(\<exists>w<n. holding (workers st ! w) = Some i) \<or> item_done D es st i"
        by (simp add: inv_done_def)
      then show ?thesis
      proof
        assume "\<exists>w<n. holding (workers st ! w) = Some i"
        then obtain w' where w': "w' < n" "holding (workers st ! w') = Some i" by blast
        with False wold have "w' \<noteq> w" by auto
        with w' Wsame have "holding (workers st' ! w') = Some i" by simp
        with w' show ?thesis by blast
      next
        assume "item_done D es st i"
        then have "item_done D es st' i"
          using Rsame[OF False] Esame[OF False] by (simp add: item_done_def)
        then show ?thesis ..
      qed
    qed
  qed
  have 5: "inv_fresh es st'"
    unfolding inv_fresh_def
  proof (intro allI impI)
    fix i assume a: "pointer st' \<le> i"
    with P have ij: "i \<noteq> j" and "pointer st \<le> i" by simp_all
    with fr have "events_of i (events st) = []" "i < length es \<longrightarrow> results st ! i = Unassigned"
      by (simp_all add: inv_fresh_def)
    then show "events_of i (events st') = [] \<and> (i < length es \<longrightarrow> results st' ! i = Unassigned)"
      using Rsame[OF ij] Esame[OF ij] by simp
  qed
  show ?thesis using 1 2 3 4 5 by (simp add: pool_inv_def)
qed

lemma return_step_inv:
  assumes inv: "pool_inv D es n st" and w: "w < n"
    and old: "holding (workers st ! w) = None"
    and P: "pointer st = length es"
  shows "pool_inv D es n (st\<lparr> workers := (workers st)[w := Returned] \<rparr>)"
proof -
  let ?st = "st\<lparr> workers := (workers st)[w := Returned] \<rparr>"
  have sh: "inv_shape es n st" and he: "inv_held D es n st" and un: "inv_unique n st"
    and dn: "inv_done D es n st" and fr: "inv_fresh es st"
    using inv by (simp_all add: pool_inv_def)
  have len: "length (workers st) = n" using sh by (simp add: inv_shape_def)
  have hold: "holding (workers ?st ! w') = holding (workers st ! w')" if "w' < n" for w'
    using that old len by (cases "w' = w") simp_all
  have 1: "inv_shape es n ?st" using sh P by (simp add: inv_shape_def)
  have 2: "inv_held D es n ?st"
    unfolding inv_held_def
  proof (intro allI impI)
    fix w' i assume a: "w' < n" "holding (workers ?st ! w') = Some i"
    then have h: "holding (workers st ! w') = Some i" using hold by simp
    with old have "w' \<noteq> w" by auto
    then have "workers ?st ! w' = workers st ! w'" by simp
    with h he a show "i < pointer ?st \<and> results ?st ! i = Unassigned
          \<and> partial_ok D es (workers ?st ! w') (events_of i (events ?st))"
      by (simp add: inv_held_def)
  qed
  have 3: "inv_unique n ?st"
    using un hold unfolding inv_unique_def by metis
  have 4: "inv_done D es n ?st"
    using dn hold unfolding inv_done_def item_done_def by (metis pool.select_convs(1,3,5) pool.surjective pool.update_convs(4))
  have 5: "inv_fresh es ?st" using fr by (simp add: inv_fresh_def)
  show ?thesis using 1 2 3 4 5 by (simp add: pool_inv_def)
qed

lemma finish_item_fields [simp]:
  "pointer (finish_item w i st) = pointer st"
  "results (finish_item w i st) = results st"
  "workers (finish_item w i st) = (workers st)[w := AwaitThrottle]"
  "events (finish_item w i st) =
     events st @ (if (completed st + 1) mod 10 = 0 then [Progress (completed st + 1)] else [])
       @ [Sleep i 100]"
  by (simp_all add: finish_item_def Let_def)

lemma resume_inv:
  assumes inv: "pool_inv D es n st"
  shows "pool_inv D es n (resume D es w st)"
proof (cases "w < n")
  case False
  moreover have "length (workers st) = n" using inv by (simp add: pool_inv_def inv_shape_def)
  ultimately show ?thesis using inv by (simp add: resume_def)
next
  case w: True
  have sh: "inv_shape es n st" and he: "inv_held D es n st" and fr: "inv_fresh es st"
    using inv by (simp_all add: pool_inv_def)
  have len: "length (workers st) = n" "length (results st) = length es"
    "pointer st \<le> length es"
    using sh by (simp_all add: inv_shape_def)
  have wl: "w < length (workers st)" using w len by simp
  have head: "pool_inv D es n (loop_head es w st)" if h: "holding (workers st ! w) = None"
  proof (cases "pointer st < length es")
    case True
    have f: "events_of (pointer st) (events st) = []" "results st ! pointer st = Unassigned"
      using fr True by (simp_all add: inv_fresh_def)
    have "(results st)[pointer st := results st ! pointer st] = results st"
      by (rule list_update_id)
    with f True have R: "results (loop_head es w st) = (results st)[pointer st := Unassigned]"
      by (simp add: loop_head_def)
    show ?thesis
      by (rule item_step_inv[OF inv w _ R, where new = "[Fetch (pointer st)]"
            and s' = "AwaitDetail (pointer st) (es ! pointer st)"])
         (use True f h len in \<open>simp_all add: loop_head_def\<close>)
  next
    case False
    with len have "pointer st = length es" by simp
    from return_step_inv[OF inv w h this] False show ?thesis by (simp add: loop_head_def)
  qed
  show ?thesis
  proof (cases "workers st ! w")
    case Idle
    with head wl show ?thesis by (simp add: resume_def)
  next
    case AwaitThrottle
    with head wl show ?thesis by (simp add: resume_def)
  next
    case Returned
    with inv wl show ?thesis by (simp add: resume_def)
  next
    case (AwaitDetail i e)
    with he w have f: "i < pointer st" "results st ! i = Unassigned" "e = es ! i"
      "events_of i (events st) = [Fetch i]"
      by (auto simp: inv_held_def)
    from f(2) have U: "results st = (results st)[i := Unassigned]"
      by (metis list_update_id)
    show ?thesis
    proof (cases "D e i 0")
      case (Inr p)
      have "pool_inv D es n (finish_item w i (st\<lparr> results := (results st)[i := Filled p] \<rparr>))"
        by (rule item_step_inv[OF inv w, where j = i and v = "Filled p"
              and new = "(if (completed st + 1) mod 10 = 0 then [Progress (completed st + 1)] else [])
                           @ [Sleep i 100]"
              and s' = AwaitThrottle])
           (use f Inr AwaitDetail len in \<open>simp_all add: item_slot_def item_events_def\<close>)
      with AwaitDetail Inr wl show ?thesis by (simp add: resume_def)
    next
      case (Inl err)
      have "pool_inv D es n (st\<lparr> pointer := min (pointer st) (length es),
                      workers := (workers st)[w := AwaitBackoff i e],
                      events := events st @ [LogFailed i, Sleep i 500] \<rparr>)"
        by (rule item_step_inv[OF inv w, where j = i and v = Unassigned
              and new = "[LogFailed i, Sleep i 500]" and s' = "AwaitBackoff i e"])
           (use f Inl AwaitDetail len U in \<open>simp_all add: min_def\<close>)
      with AwaitDetail Inl wl show ?thesis by (simp add: resume_def)
    qed
  next
    case (AwaitBackoff i e)
    with he w have f: "i < pointer st" "results st ! i = Unassigned" "e = es ! i"
      "isl (D e i 0)" "events_of i (events st) = [Fetch i, LogFailed i, Sleep i 500]"
      by (auto simp: inv_held_def)
    from f(2) have U: "results st = (results st)[i := Unassigned]"
      by (metis list_update_id)
    have "pool_inv D es n (st\<lparr> workers := (workers st)[w := AwaitRetry i e],
                 events := events st @ [Fetch i] \<rparr>)"
      by (rule item_step_inv[OF inv w, where j = i and v = Unassigned
            and new = "[Fetch i]" and s' = "AwaitRetry i e"])
         (use f AwaitBackoff len U in \<open>simp_all\<close>)
    with AwaitBackoff wl show ?thesis by (simp add: resume_def)
  next
    case (AwaitRetry i e)
    with he w have f: "i < pointer st" "results st ! i = Unassigned" "e = es ! i"
      "isl (D e i 0)" "events_of i (events st) = [Fetch i, LogFailed i, Sleep i 500, Fetch i]"
      by (auto simp: inv_held_def)
    show ?thesis
    proof (cases "D e i 1")
      case (Inr p)
      have "pool_inv D es n (finish_item w i (st\<lparr> results := (results st)[i := Filled p] \<rparr>))"
        by (rule item_step_inv[OF inv w, where j = i and v = "Filled p"
              and new = "(if (completed st + 1) mod 10 = 0 then [Progress (completed st + 1)] else [])
                           @ [Sleep i 100]"
              and s' = AwaitThrottle])
           (use f Inr AwaitRetry len in
             \<open>auto simp add: item_slot_def item_events_def isl_def split: sum.splits\<close>)
      with AwaitRetry Inr wl show ?thesis by (simp add: resume_def)
    next
      case (Inl err)
      have "pool_inv D es n (finish_item w i
                    (st\<lparr> results := (results st)[i := NullSlot],
                        events := events st @ [LogRetryFailed i] \<rparr>))"
        by (rule item_step_inv[OF inv w, where j = i and v = NullSlot
              and new = "[LogRetryFailed i]
                 @ (if (completed st + 1) mod 10 = 0 then [Progress (completed st + 1)] else [])
                           @ [Sleep i 100]"
              and s' = AwaitThrottle])
           (use f Inl AwaitRetry len in
             \<open>auto simp add: item_slot_def item_events_def isl_def split: sum.splits\<close>)
      with AwaitRetry Inl wl show ?thesis by (simp add: resume_def)
    qed
  qed
qed

lemma run_pool_inv:
  "pool_inv D es n st \<Longrightarrow> pool_inv D es n (run_pool D es sched st)"
  by (induction sched arbitrary: st) (simp_all add: run_pool_def resume_inv)

lemma initial_pool_inv: "pool_inv D es n (initial_pool es n)"
  by (simp add: pool_inv_def inv_shape_def inv_held_def inv_unique_def inv_done_def
      inv_fresh_def initial_pool_def)

lemma start_pool_initial: "start_pool D es n = run_pool D es [0..<n] (initial_pool es n)"
  by (simp add: start_pool_def)

lemma start_pool_inv: "pool_inv D es n (start_pool D es n)"
  by (simp add: start_pool_initial run_pool_inv initial_pool_inv)

lemma all_returned_nth: "all_returned st \<Longrightarrow> w < length (workers st) \<Longrightarrow> workers st ! w = Returned"
  by (simp add: all_returned_def list_all_length)

lemma finished_items:
  assumes inv: "pool_inv D es n st" and ar: "all_returned st"
  shows "\<forall>i<pointer st. results st ! i = item_slot D es i
            \<and> events_of i (events st) = item_events D es i"
    and "0 < n \<Longrightarrow> pointer st = length es"
proof -
  have len: "length (workers st) = n" using inv by (simp add: pool_inv_def inv_shape_def)
  have none: "holding (workers st ! w) = None" if "w < n" for w
    using all_returned_nth[OF ar] that len by simp
  have "inv_done D es n st" using inv by (simp add: pool_inv_def)
  then show "\<forall>i<pointer st. results st ! i = item_slot D es i
            \<and> events_of i (events st) = item_events D es i"
    using none by (auto simp: inv_done_def item_done_def)
  assume "0 < n"
  then have "workers st ! 0 = Returned" using all_returned_nth[OF ar] len by simp
  then show "pointer st = length es"
    using inv \<open>0 < n\<close> by (auto simp: pool_inv_def inv_shape_def)
qed

lemma rank_update:
  "w < length ws \<Longrightarrow>
     sum_list (map rank (ws[w := s])) + rank (ws ! w) = sum_list (map rank ws) + rank s"
  by (induction ws arbitrary: w) (auto split: nat.splits)

lemma resume_potential:
  assumes p: "pointer st \<le> length es" and w: "w < length (workers st)"
    and nr: "workers st ! w \<noteq> Returned"
  shows "potential (length es) (resume D es w st) < potential (length es) st"
proof -
  have U: "sum_list (map rank ((workers st)[w := s])) + rank (workers st ! w)
            = sum_list (map rank (workers st)) + rank s" for s
    using rank_update w by blast
  show ?thesis
  proof (cases "workers st ! w")
    case Idle
    then show ?thesis
      using U[of "AwaitDetail (pointer st) (es ! pointer st)"] U[of Returned] p w
      by (simp add: resume_def loop_head_def potential_def) arith
  next
    case AwaitThrottle
    then show ?thesis
      using U[of "AwaitDetail (pointer st) (es ! pointer st)"] U[of Returned] p w
      by (simp add: resume_def loop_head_def potential_def) arith
  next
    case Returned
    with nr show ?thesis by simp
  next
    case (AwaitDetail i e)
    then show ?thesis
      using U[of AwaitThrottle] U[of "AwaitBackoff i e"] p w
      by (simp add: resume_def potential_def finish_item_def Let_def split: sum.splits)
  next
    case (AwaitBackoff i e)
    then show ?thesis
      using U[of "AwaitRetry i e"] p w
      by (simp add: resume_def potential_def)
  next
    case (AwaitRetry i e)
    then show ?thesis
      using U[of AwaitThrottle] p w
      by (simp add: resume_def potential_def finish_item_def Let_def split: sum.splits)
  qed
qed

lemma resume_idle:
  "\<not> w < length (workers st) \<or> workers st ! w = Returned \<Longrightarrow> resume D es w st = st"
  by (auto simp: resume_def)

lemma resume_pointer_le:
  "pointer st \<le> length es \<Longrightarrow> pointer (resume D es w st) \<le> length es"
  by (auto simp: resume_def loop_head_def finish_item_def Let_def
      split: worker_state.splits sum.splits)

lemma resume_length_workers [simp]:
  "length (workers (resume D es w st)) = length (workers st)"
  by (auto simp: resume_def loop_head_def finish_item_def Let_def
      split: worker_state.splits sum.splits)

lemma run_pool_Cons [simp]:
  "run_pool D es (w # ws) st = run_pool D es ws (resume D es w st)"
  by (simp add: run_pool_def)

lemma run_pool_Nil [simp]: "run_pool D es [] st = st"
  by (simp add: run_pool_def)

lemma run_pool_append [simp]:
  "run_pool D es (xs @ ys) st = run_pool D es ys (run_pool D es xs st)"
  by (simp add: run_pool_def)

lemma run_pool_pointer_le:
  "pointer st \<le> length es \<Longrightarrow> pointer (run_pool D es ws st) \<le> length es"
  by (induction ws arbitrary: st) (simp_all add: resume_pointer_le)

lemma run_pool_length_workers [simp]:
  "length (workers (run_pool D es ws st)) = length (workers st)"
  by (induction ws arbitrary: st) simp_all

lemma run_pool_potential_le:
  "pointer st \<le> length es \<Longrightarrow>
     potential (length es) (run_pool D es ws st) \<le> potential (length es) st"
proof (induction ws arbitrary: st)
  case Nil
  show ?case by simp
next
  case (Cons w ws)
  have "potential (length es) (resume D es w st) \<le> potential (length es) st"
  proof (cases "w < length (workers st) \<and> workers st ! w \<noteq> Returned")
    case True
    then show ?thesis using resume_potential[OF Cons.prems, of w D] by simp
  next
    case False
    then show ?thesis using resume_idle[of w st D es] by auto
  qed
  moreover have "potential (length es) (run_pool D es ws (resume D es w st))
                  \<le> potential (length es) (resume D es w st)"
    by (rule Cons.IH) (rule resume_pointer_le[OF Cons.prems])
  ultimately show ?case by simp
qed

lemma run_pool_potential_less:
  "pointer st \<le> length es \<Longrightarrow> v \<in> set ws \<Longrightarrow> v < length (workers st) \<Longrightarrow>
   workers st ! v \<noteq> Returned \<Longrightarrow>
     potential (length es) (run_pool D es ws st) < potential (length es) st"
proof (induction ws arbitrary: st)
  case Nil
  then show ?case by simp
next
  case (Cons w ws)
  show ?case
  proof (cases "w < length (workers st) \<and> workers st ! w \<noteq> Returned")
    case True
    then have "potential (length es) (resume D es w st) < potential (length es) st"
      using resume_potential[OF Cons.prems(1), of w D] by simp
    moreover have "potential (length es) (run_pool D es ws (resume D es w st))
                  \<le> potential (length es) (resume D es w st)"
      by (rule run_pool_potential_le) (rule resume_pointer_le[OF Cons.prems(1)])
    ultimately show ?thesis by simp
  next
    case False
    then have same: "resume D es w st = st" using resume_idle[of w st D es] by auto
    from False Cons.prems have "v \<noteq> w" by auto
    with Cons.prems have "v \<in> set ws" by simp
    then show ?thesis using Cons.IH[OF Cons.prems(1) _ Cons.prems(3,4)] same by simp
  qed
qed

lemma all_returned_run_pool:
  "all_returned st \<Longrightarrow> run_pool D es ws st = st"
proof (induction ws)
  case Nil show ?case by simp
next
  case (Cons w ws)
  have "resume D es w st = st"
    using all_returned_nth[OF Cons.prems, of w] by (intro resume_idle) auto
  with Cons show ?case by simp
qed

lemma potential_zero_returned:
  assumes "potential t st = 0" shows "all_returned st"
proof -
  have "sum_list (map rank (workers st)) = 0" using assms by (simp add: potential_def)
  then have "\<forall>s\<in>set (workers st). rank s = 0" by simp
  moreover have "rank s = 0 \<Longrightarrow> s = Returned" for s by (cases s) simp_all
  ultimately show ?thesis by (auto simp: all_returned_def list_all_iff)
qed

lemma round_robin_Suc: "round_robin n (Suc k) = [0..<n] @ round_robin n k"
  by (simp add: round_robin_def)

lemma round_robin_finishes:
  "pointer st \<le> length es \<Longrightarrow> n = length (workers st) \<Longrightarrow>
   all_returned st \<or> potential (length es) st \<le> k \<Longrightarrow>
     all_returned (run_pool D es (round_robin n k) st)"
proof (induction k arbitrary: st)
  case 0
  then have "all_returned st" using potential_zero_returned by auto
  then show ?case by (simp add: all_returned_run_pool)
next
  case (Suc k)
  show ?case
  proof (cases "all_returned st")
    case True
    then show ?thesis by (simp add: all_returned_run_pool)
  next
    case False
    then obtain v where v: "v < length (workers st)" "workers st ! v \<noteq> Returned"
      by (auto simp: all_returned_def list_all_length)
    let ?st = "run_pool D es [0..<n] st"
    have "potential (length es) ?st < potential (length es) st"
      using run_pool_potential_less[OF Suc.prems(1) _ v] v Suc.prems(2) by simp
    with Suc.prems False have "potential (length es) ?st \<le> k" by simp
    moreover have "pointer ?st \<le> length es" by (rule run_pool_pointer_le[OF Suc.prems(1)])
    moreover have "n = length (workers ?st)" using Suc.prems(2) by simp
    ultimately have "all_returned (run_pool D es (round_robin n k) ?st)"
      using Suc.IH by blast
    then show ?thesis by (simp add: round_robin_Suc)
  qed
qed

lemma start_pool_finishes:
  "all_returned (run_pool D es (round_robin n (4 * length es + n)) (start_pool D es n))"
proof -
  have p0: "pointer (initial_pool es n) \<le> length es" by (simp add: initial_pool_def)
  have "potential (length es) (start_pool D es n) \<le> potential (length es) (initial_pool es n)"
    unfolding start_pool_initial by (rule run_pool_potential_le[OF p0])
  also have "\<dots> = 4 * length es + n"
    by (simp add: potential_def initial_pool_def sum_list_replicate)
  finally have "potential (length es) (start_pool D es n) \<le> 4 * length es + n" .
  moreover have "pointer (start_pool D es n) \<le> length es"
    unfolding start_pool_initial by (rule run_pool_pointer_le[OF p0])
  moreover have "n = length (workers (start_pool D es n))"
    by (simp add: start_pool_initial initial_pool_def)
  ultimately show ?thesis using round_robin_finishes by blast
qed

lemma payloads_nth: "i < length rs \<Longrightarrow> rs ! i = Filled p \<Longrightarrow> p \<in> set (payloads rs)"
proof (induction rs arbitrary: i)
  case Nil
  then show ?case by simp
next
  case (Cons r rs)
  show ?case
  proof (cases i)
    case 0
    with Cons.prems show ?thesis by simp
  next
    case (Suc k)
    with Cons have "p \<in> set (payloads rs)" by simp
    then show ?thesis by (cases r) simp_all
  qed
qed

lemma payloads_filter:
  "map Filled (payloads rs) = filter (\<lambda>s. s \<noteq> NullSlot \<and> s \<noteq> Unassigned) rs"
  by (induction rs rule: payloads.induct) simp_all

lemma js_sort_by_id: "js_sort by_id xs = sort_key id_or_zero xs"
  using js_sort_sort_key[of id_or_zero xs] by (simp add: by_id_def[abs_def])

lemma finished_results:
  assumes inv: "pool_inv D es n st" and ar: "all_returned st" and n: "0 < n"
  shows "results st = map (item_slot D es) [0..<length es]"
proof (rule nth_equalityI)
  have len: "length (results st) = length es" using inv by (simp add: pool_inv_def inv_shape_def)
  then show "length (results st) = length (map (item_slot D es) [0..<length es])" by simp
  fix i assume "i < length (results st)"
  with len have i: "i < length es" by simp
  moreover have "pointer st = length es" using finished_items(2)[OF inv ar n] .
  ultimately have "results st ! i = item_slot D es i" using finished_items(1)[OF inv ar] by simp
  then show "results st ! i = map (item_slot D es) [0..<length es] ! i" using i by simp
qed

text \<open>
  Claim C4. Take any order of resumption that brings every worker of a non-empty pool to
  its return, and any item \<open>i\<close>. If the first call for \<open>i\<close> succeeds, its payload is in
  slot \<open>i\<close> after one call. If it fails, the worker logs, pauses 500 ms and calls once
  more: a payload from the retry is in slot \<open>i\<close> and in the sorted output; a second
  failure is logged and leaves \<open>null\<close> in slot \<open>i\<close>. No further call is made for \<open>i\<close>,
  and every slot of the list is settled in this way, whatever failed. Resuming the
  workers in turn brings every worker to its return.
\<close>

theorem worker_retries_once_then_null_placeholder:
  assumes st: "st = run_pool D es sched (start_pool D es n)" and fin: "all_returned st"
    and n: "0 < n" and i: "i < length es"
  shows "(\<forall>p. D (es ! i) i 0 = Inr p \<longrightarrow>
            results st ! i = Filled p \<and> events_of i (events st) = [Fetch i, Sleep i 100])
       \<and> (\<forall>e p. D (es ! i) i 0 = Inl e \<and> D (es ! i) i 1 = Inr p \<longrightarrow>
            results st ! i = Filled p \<and> p \<in> set (js_sort by_id (payloads (results st)))
            \<and> events_of i (events st) =
                 [Fetch i, LogFailed i, Sleep i 500, Fetch i, Sleep i 100])
       \<and> (\<forall>e e'. D (es ! i) i 0 = Inl e \<and> D (es ! i) i 1 = Inl e' \<longrightarrow>
            results st ! i = NullSlot
            \<and> events_of i (events st) =
                 [Fetch i, LogFailed i, Sleep i 500, Fetch i, LogRetryFailed i, Sleep i 100])
       \<and> results st = map (item_slot D es) [0..<length es]
       \<and> all_returned (run_pool D es (round_robin n (4 * length es + n)) (start_pool D es n))"
proof -
  have inv: "pool_inv D es n st" unfolding st by (rule run_pool_inv[OF start_pool_inv])
  have len: "length (results st) = length es" using inv by (simp add: pool_inv_def inv_shape_def)
  have p: "pointer st = length es" using finished_items(2)[OF inv fin n] .
  with i finished_items(1)[OF inv fin]
  have r: "results st ! i = item_slot D es i" and e: "events_of i (events st) = item_events D es i"
    by simp_all
  have a: "\<forall>p. D (es ! i) i 0 = Inr p \<longrightarrow>
            results st ! i = Filled p \<and> events_of i (events st) = [Fetch i, Sleep i 100]"
    unfolding r e by (simp add: item_slot_def item_events_def)
  have m: "results st ! i = Filled p \<Longrightarrow> p \<in> set (js_sort by_id (payloads (results st)))" for p
    using payloads_nth[of i "results st" p] i len by (simp add: set_js_sort)
  have b: "\<forall>e p. D (es ! i) i 0 = Inl e \<and> D (es ! i) i 1 = Inr p \<longrightarrow>
            results st ! i = Filled p \<and> p \<in> set (js_sort by_id (payloads (results st)))
            \<and> events_of i (events st) =
                 [Fetch i, LogFailed i, Sleep i 500, Fetch i, Sleep i 100]"
  proof (intro allI impI)
    fix e p assume h: "D (es ! i) i 0 = Inl e \<and> D (es ! i) i 1 = Inr p"
    then have "results st ! i = Filled p" unfolding r by (simp add: item_slot_def)
    moreover from this have "p \<in> set (js_sort by_id (payloads (results st)))" by (rule m)
    moreover have "events_of i (events st) =
                 [Fetch i, LogFailed i, Sleep i 500, Fetch i, Sleep i 100]"
      using h unfolding e by (simp add: item_events_def)
    ultimately show "results st ! i = Filled p \<and> p \<in> set (js_sort by_id (payloads (results st)))
            \<and> events_of i (events st) =
                 [Fetch i, LogFailed i, Sleep i 500, Fetch i, Sleep i 100]" by blast
  qed
  have c: "\<forall>e e'. D (es ! i) i 0 = Inl e \<and> D (es ! i) i 1 = Inl e' \<longrightarrow>
            results st ! i = NullSlot
            \<and> events_of i (events st) =
                 [Fetch i, LogFailed i, Sleep i 500, Fetch i, LogRetryFailed i, Sleep i 100]"
    unfolding r e by (simp add: item_slot_def item_events_def)
  have d: "results st = map (item_slot D es) [0..<length es]"
    by (rule finished_results[OF inv fin n])
  show ?thesis by (intro conjI a b c d start_pool_finishes)
qed

theorem worker_retries_once_then_null_placeholder_witness:
  "results sample_run ! 0 = Filled (sample_payload 10)
   \<and> events_of 0 (events sample_run) = [Fetch 0, Sleep 0 100]
   \<and> results sample_run ! 1 = Filled (sample_payload 9)
   \<and> events_of 1 (events sample_run) = [Fetch 1, LogFailed 1, Sleep 1 500, Fetch 1, Sleep 1 100]
   \<and> results sample_run ! 2 = NullSlot
   \<and> events_of 2 (events sample_run) =
        [Fetch 2, LogFailed 2, Sleep 2 500, Fetch 2, LogRetryFailed 2, Sleep 2 100]
   \<and> map payload_id (js_sort by_id (payloads (results sample_run))) = [Some 7, Some 9, Some 10]"
proof -
  have fin: "all_returned sample_run" by code_simp
  have l: "length sample_index = 4" by (simp add: sample_index_def)
  have d0: "sample_detail (sample_index ! 0) 0 0 = Inr (sample_payload 10)"
    by (simp add: sample_detail_def)
  have d1: "sample_detail (sample_index ! 1) 1 0 = Inl (FetchError ''b'')
            \<and> sample_detail (sample_index ! 1) 1 1 = Inr (sample_payload 9)"
    by (simp add: sample_detail_def sample_index_def)
  have d2: "sample_detail (sample_index ! 2) 2 0 = Inl (FetchError ''c'')
            \<and> sample_detail (sample_index ! 2) 2 1 = Inl (FetchError ''c'')"
    by (simp add: sample_detail_def sample_index_def)
  have s: "map payload_id (js_sort by_id (payloads (map (item_slot sample_detail sample_index) [0..<length sample_index])))
             = [Some 7, Some 9, Some 10]"
    by code_simp
  have n: "0 < (2::nat)" by simp
  have i0: "0 < length sample_index" and i1: "1 < length sample_index"
    and i2: "2 < length sample_index"
    by (simp_all add: l)
  have r0: "results sample_run ! 0 = Filled (sample_payload 10)
            \<and> events_of 0 (events sample_run) = [Fetch 0, Sleep 0 100]"
    using worker_retries_once_then_null_placeholder [OF sample_run_def fin n i0] d0 by blast
  have r1: "results sample_run ! 1 = Filled (sample_payload 9)
            \<and> events_of 1 (events sample_run) =
                [Fetch 1, LogFailed 1, Sleep 1 500, Fetch 1, Sleep 1 100]"
    using worker_retries_once_then_null_placeholder [OF sample_run_def fin n i1] d1 by blast
  have r2: "results sample_run ! 2 = NullSlot
            \<and> events_of 2 (events sample_run) =
                [Fetch 2, LogFailed 2, Sleep 2 500, Fetch 2, LogRetryFailed 2, Sleep 2 100]"
    using worker_retries_once_then_null_placeholder [OF sample_run_def fin n i2] d2 by blast
  have r: "results sample_run = map (item_slot sample_detail sample_index) [0..<length sample_index]"
    using worker_retries_once_then_null_placeholder [OF sample_run_def fin n i0] by blast
  have s': "map payload_id (js_sort by_id (payloads (results sample_run))) = [Some 7, Some 9, Some 10]"
    unfolding r by (rule s)
  show ?thesis using r0 r1 r2 s' by blast
qed

text \<open>
  Claim C7. When the index was fetched and every worker has returned, \<open>main\<close> is
  fulfilled and has written one file, the serialization of one array: the payloads of
  \<open>results\<close>, which are its entries other than \<open>null\<close> and holes, sorted ascending by
  identifier (a missing identifier counting as 0), nothing added or lost. With a
  positive \<open>CONCURRENCY\<close> the entries of \<open>results\<close> are the settled slots of all items.
  Resuming the workers in turn long enough, \<open>main\<close> is settled.
\<close>

theorem main_writes_non_null_results_sorted_by_id:
  assumes idx: "index_api env (API_BASE @ ''/pokemon?limit='' @ LIMIT env) = Inr list"
    and es: "es = (case index_results list of None \<Rightarrow> [] | Some xs \<Rightarrow> xs)"
    and st: "st = run_pool (detail_api env) es sched
                    (start_pool (detail_api env) es (worker_count (CONCURRENCY env) (length es)))"
    and fin: "all_returned st"
  shows "main env sched disk =
           Some (Inr (), disk(OUTPUT_PATH \<mapsto> stringify env (js_sort by_id (payloads (results st)))))
       \<and> map Filled (payloads (results st)) =
           filter (\<lambda>s. s \<noteq> NullSlot \<and> s \<noteq> Unassigned) (results st)
       \<and> sorted (map id_or_zero (js_sort by_id (payloads (results st))))
       \<and> mset (js_sort by_id (payloads (results st))) = mset (payloads (results st))
       \<and> (0 < CONCURRENCY env \<longrightarrow>
            results st = map (item_slot (detail_api env) es) [0..<length es])
       \<and> main env (round_robin (worker_count (CONCURRENCY env) (length es))
                      (4 * length es + worker_count (CONCURRENCY env) (length es))) disk \<noteq> None"
proof -
  let ?n = "worker_count (CONCURRENCY env) (length es)"
  have a: "main env sched disk =
           Some (Inr (), disk(OUTPUT_PATH \<mapsto> stringify env (js_sort by_id (payloads (results st)))))"
    using idx fin unfolding st es by (simp add: main_def fetchJson_def Let_def)
  have inv: "pool_inv (detail_api env) es ?n st"
    unfolding st by (rule run_pool_inv[OF start_pool_inv])
  have e: "0 < CONCURRENCY env \<longrightarrow>
            results st = map (item_slot (detail_api env) es) [0..<length es]"
  proof
    assume c: "0 < CONCURRENCY env"
    show "results st = map (item_slot (detail_api env) es) [0..<length es]"
    proof (cases "length es = 0")
      case True
      moreover have "length (results st) = length es"
        using inv by (simp add: pool_inv_def inv_shape_def)
      ultimately show ?thesis by simp
    next
      case False
      with c have "0 < ?n" by (simp add: worker_count_def)
      then show ?thesis by (rule finished_results[OF inv fin])
    qed
  qed
  have f: "main env (round_robin ?n (4 * length es + ?n)) disk \<noteq> None"
    using idx start_pool_finishes[of "detail_api env" es ?n] unfolding es
    by (simp add: main_def fetchJson_def Let_def)
  have g: "sorted (map id_or_zero (js_sort by_id (payloads (results st))))"
    by (simp add: js_sort_by_id)
  have h: "mset (js_sort by_id (payloads (results st))) = mset (payloads (results st))"
    by (rule mset_js_sort)
  show ?thesis by (intro conjI a payloads_filter g h e f)
qed

theorem main_writes_non_null_results_sorted_by_id_witness:
  "main (sample_env sample_index_api) (round_robin 2 9) Map.empty
     = Some (Inr (), [OUTPUT_PATH \<mapsto> ''7910''])"
proof -
  let ?st = "run_pool (detail_api (sample_env sample_index_api)) sample_index (round_robin 2 9)
               (start_pool (detail_api (sample_env sample_index_api)) sample_index
                  (worker_count (CONCURRENCY (sample_env sample_index_api)) (length sample_index)))"
  have i: "index_api (sample_env sample_index_api)
             (API_BASE @ ''/pokemon?limit='' @ LIMIT (sample_env sample_index_api))
           = Inr \<lparr> index_results = Some sample_index \<rparr>"
    by (simp add: sample_env_def sample_index_api_def)
  have e: "sample_index = (case index_results \<lparr> index_results = Some sample_index \<rparr> of
                             None \<Rightarrow> [] | Some xs \<Rightarrow> xs)"
    by simp
  have fin: "all_returned ?st" by code_simp
  have s: "stringify (sample_env sample_index_api) (js_sort by_id (payloads (results ?st))) = ''7910''"
    by code_simp
  show ?thesis
    using main_writes_non_null_results_sorted_by_id [OF i e refl fin, of Map.empty] s by simp
qed

text \<open>
  Claim C8. When the fetch of the index fails, \<open>main\<close> is rejected with that error, the
  files are as they were, and the process ends with exit code 1, whatever the schedule.
\<close>

theorem index_fetch_failure_exits_without_dataset:
  assumes "index_api env (API_BASE @ ''/pokemon?limit='' @ LIMIT env) = Inl e"
  shows "main env sched disk = Some (Inl e, disk) \<and> script env sched disk = Some (1, disk)"
  using assms by (simp add: main_def script_def fetchJson_def)

theorem index_fetch_failure_exits_without_dataset_witness:
  "script (sample_env (\<lambda>url. Inl (FetchError url))) [0, 1] Map.empty = Some (1, Map.empty)"
  using index_fetch_failure_exits_without_dataset [of "sample_env (\<lambda>url. Inl (FetchError url))" "FetchError (API_BASE @ ''/pokemon?limit=251'')" "[0, 1]" Map.empty]
  by (simp add: sample_env_def)

end
